theory Spec2Isabelle
  imports Complex_Main
begin

section \<open>Data model of the game engine (gameEngine.js)\<close>

text \<open>
  The constant objects \<open>PLAYERS\<close>, \<open>CELL_VALUES\<close> and \<open>GAME_RESULTS\<close> are enumerations.
  A cell holds \<open>null\<close>, \<open>'X'\<close> (the user's mark) or \<open>'O'\<close> (the AI's mark).
\<close>

datatype player = USER | AI

datatype cell = EMPTY | MARK_X | MARK_O

datatype game_result = IN_PROGRESS | USER_WIN | AI_WIN | DRAW

text \<open>
  The engine raises plain \<open>Error\<close> objects that differ only in their message. Each message
  gets a constructor, named after the error kind the specification gives it:
  \<open>'Invalid move: position ... is not available'\<close>, \<open>'Game has already ended'\<close>,
  \<open>'Not user's turn'\<close> and \<open>'Not AI's turn'\<close>, \<open>'Unknown difficulty level: ...'\<close>,
  \<open>'No available moves for AI'\<close>.
\<close>

datatype error =
    InvalidMoveError
  | GameAlreadyEndedError
  | WrongTurnError
  | UnknownDifficultyError
  | NoAvailableMovesError

text \<open>
  A board is a JavaScript array of cells. Positions are integers (the request validation
  admits integers only); a read outside the array yields \<open>undefined\<close>, which is \<open>None\<close> here.
\<close>

type_synonym board = "cell list"

type_synonym line = "nat \<times> nat \<times> nat"

definition cellAt :: "board \<Rightarrow> nat \<Rightarrow> cell option" where
  "cellAt board i = (if i < length board then Some (board ! i) else None)"

text \<open>JavaScript truthiness of a cell read: \<open>null\<close> and \<open>undefined\<close> are falsy, the marks are not.\<close>

fun truthy :: "cell option \<Rightarrow> bool" where
  "truthy None = False"
| "truthy (Some EMPTY) = False"
| "truthy (Some MARK_X) = True"
| "truthy (Some MARK_O) = True"

record winner_info =
  winner :: player
  winningLine :: line

section \<open>Board model and rules engine\<close>

definition isValidMove :: "board \<Rightarrow> int \<Rightarrow> bool" where
  "isValidMove board position \<longleftrightarrow>
     position \<ge> 0 \<and> position \<le> 8 \<and> cellAt board (nat position) = Some EMPTY"

definition makeMove :: "board \<Rightarrow> int \<Rightarrow> player \<Rightarrow> error + board" where
  "makeMove board position p =
     (if \<not> isValidMove board position then Inl InvalidMoveError
      else Inr (board[nat position := (if p = USER then MARK_X else MARK_O)]))"

definition winningCombinations :: "line list" where
  "winningCombinations =
     [(0, 1, 2), (3, 4, 5), (6, 7, 8),
      (0, 3, 6), (1, 4, 7), (2, 5, 8),
      (0, 4, 8), (2, 4, 6)]"

definition lineMatches :: "board \<Rightarrow> line \<Rightarrow> bool" where
  "lineMatches board l =
     (case l of (a, b, c) \<Rightarrow>
        truthy (cellAt board a) \<and> cellAt board a = cellAt board b \<and> cellAt board a = cellAt board c)"

fun checkWinner_loop :: "board \<Rightarrow> line list \<Rightarrow> winner_info option" where
  "checkWinner_loop board [] = None"
| "checkWinner_loop board (combination # rest) =
     (if lineMatches board combination
      then Some \<lparr> winner = (if cellAt board (fst combination) = Some MARK_X then USER else AI),
                  winningLine = combination \<rparr>
      else checkWinner_loop board rest)"

definition checkWinner :: "board \<Rightarrow> winner_info option" where
  "checkWinner board = checkWinner_loop board winningCombinations"

definition isDraw :: "board \<Rightarrow> bool" where
  "isDraw board \<longleftrightarrow> list_all (\<lambda>c. c \<noteq> EMPTY) board \<and> checkWinner board = None"

definition getGameResult :: "board \<Rightarrow> game_result" where
  "getGameResult board =
     (case checkWinner board of
        Some w \<Rightarrow> (if winner w = USER then USER_WIN else AI_WIN)
      | None \<Rightarrow> (if isDraw board then DRAW else IN_PROGRESS))"

definition getAvailableMoves :: "board \<Rightarrow> int list" where
  "getAvailableMoves board = map int (filter (\<lambda>i. board ! i = EMPTY) [0 ..< length board])"

section \<open>Search engine: minimax with alpha-beta pruning\<close>

text \<open>
  Scores and the alpha/beta window are JavaScript numbers that are either integers or one of
  the two infinities.
\<close>

datatype jsnum = NegInf | Fin int | PosInf

instantiation jsnum :: linorder
begin

fun less_eq_jsnum :: "jsnum \<Rightarrow> jsnum \<Rightarrow> bool" where
  "less_eq_jsnum NegInf _ = True"
| "less_eq_jsnum (Fin a) NegInf = False"
| "less_eq_jsnum (Fin a) (Fin b) = (a \<le> b)"
| "less_eq_jsnum (Fin a) PosInf = True"
| "less_eq_jsnum PosInf PosInf = True"
| "less_eq_jsnum PosInf _ = False"

definition less_jsnum :: "jsnum \<Rightarrow> jsnum \<Rightarrow> bool" where
  "less_jsnum a b \<longleftrightarrow> a \<le> b \<and> \<not> b \<le> a"

instance
proof
  fix x y z :: jsnum
  show "(x < y) = (x \<le> y \<and> \<not> y \<le> x)" by (simp add: less_jsnum_def)
  show "x \<le> x" by (cases x) simp_all
  show "x \<le> y \<Longrightarrow> y \<le> z \<Longrightarrow> x \<le> z" by (cases x; cases y; cases z) simp_all
  show "x \<le> y \<Longrightarrow> y \<le> x \<Longrightarrow> x = y" by (cases x; cases y) simp_all
  show "x \<le> y \<or> y \<le> x" by (cases x; cases y) auto
qed

end

lemma jsnum_less_simps [simp]:
  "NegInf < Fin a" "Fin a < PosInf" "NegInf < PosInf"
  "\<not> x < NegInf" "\<not> PosInf < x" "Fin a < Fin c \<longleftrightarrow> a < c"
  by (cases x; auto simp: less_jsnum_def)+

lemma jsnum_le_simps [simp]:
  "x \<le> PosInf" "Fin a \<le> Fin c \<longleftrightarrow> a \<le> c" "\<not> Fin a \<le> NegInf" "\<not> PosInf \<le> Fin a"
  "\<not> PosInf \<le> NegInf"
  by (cases x; simp)+

text \<open>
  The object returned by \<open>minimax\<close>: a terminal node returns \<open>{ score }\<close> with no position,
  an inner node returns \<open>{ position, score }\<close>.
\<close>

record search_result =
  position :: "int option"
  score :: jsnum

definition emptyCells :: "board \<Rightarrow> nat" where
  "emptyCells board = length (filter (\<lambda>c. c = EMPTY) board)"

lemma emptyCells_update:
  assumes "i < length board" "board ! i = EMPTY" "c \<noteq> EMPTY"
  shows "emptyCells (board[i := c]) < emptyCells board"
  using assms
proof (induction board arbitrary: i)
  case Nil
  then show ?case by simp
next
  case (Cons a board)
  then show ?case
    by (cases i) (auto simp: emptyCells_def)
qed

lemma makeMove_emptyCells:
  assumes "makeMove board m p = Inr newBoard"
  shows "emptyCells newBoard < emptyCells board"
proof -
  from assms have v: "isValidMove board m" and nb: "newBoard = board[nat m := (if p = USER then MARK_X else MARK_O)]"
    by (auto simp: makeMove_def split: if_splits)
  from v have "nat m < length board" "board ! nat m = EMPTY"
    by (auto simp: isValidMove_def cellAt_def split: if_splits)
  then show ?thesis unfolding nb by (intro emptyCells_update) auto
qed

function minimax :: "board \<Rightarrow> int \<Rightarrow> bool \<Rightarrow> jsnum \<Rightarrow> jsnum \<Rightarrow> error + search_result"
  and minimax_loop ::
    "board \<Rightarrow> int \<Rightarrow> bool \<Rightarrow> int list \<Rightarrow> search_result \<Rightarrow> jsnum \<Rightarrow> jsnum \<Rightarrow> error + search_result"
where
  "minimax board depth isMaximizing alpha beta =
     (case checkWinner board of
        Some w \<Rightarrow>
          (if winner w = AI
           then Inr \<lparr> position = None, score = Fin (10 - (9 - depth)) \<rparr>
           else Inr \<lparr> position = None, score = Fin (- 10 + (9 - depth)) \<rparr>)
      | None \<Rightarrow>
          (if isDraw board \<or> depth = 0 then Inr \<lparr> position = None, score = Fin 0 \<rparr>
           else minimax_loop board depth isMaximizing (getAvailableMoves board)
                  \<lparr> position = (case getAvailableMoves board of [] \<Rightarrow> None | m # _ \<Rightarrow> Some m),
                    score = (if isMaximizing then NegInf else PosInf) \<rparr>
                  alpha beta))"
| "minimax_loop board depth isMaximizing [] bestMove alpha beta = Inr bestMove"
| "minimax_loop board depth isMaximizing (move # rest) bestMove alpha beta =
     (case makeMove board move (if isMaximizing then AI else USER) of
        Inl e \<Rightarrow> Inl e
      | Inr newBoard \<Rightarrow>
          (case minimax newBoard (depth - 1) (\<not> isMaximizing) alpha beta of
             Inl e \<Rightarrow> Inl e
           | Inr r \<Rightarrow>
               (let bestMove' =
                      (if isMaximizing
                       then (if score r > score bestMove
                             then \<lparr> position = Some move, score = score r \<rparr> else bestMove)
                       else (if score r < score bestMove
                             then \<lparr> position = Some move, score = score r \<rparr> else bestMove));
                    alpha' = (if isMaximizing then max alpha (score r) else alpha);
                    beta' = (if isMaximizing then beta else min beta (score r))
                in if beta' \<le> alpha' then Inr bestMove'
                   else minimax_loop board depth isMaximizing rest bestMove' alpha' beta')))"
  by pat_completeness auto
termination
proof (relation "measures
    [(\<lambda>x. case x of Inl (b, _) \<Rightarrow> emptyCells b | Inr (b, _) \<Rightarrow> emptyCells b),
     (\<lambda>x. case x of Inl (b, _) \<Rightarrow> Suc (length (getAvailableMoves b))
                  | Inr (_, _, _, ms, _) \<Rightarrow> length ms)]", goal_cases)
  case 1
  then show ?case by simp
next
  case (2 board depth isMaximizing alpha beta)
  then show ?case by simp
next
  case (3 board depth isMaximizing move rest bestMove alpha beta newBoard)
  then show ?case by (simp add: makeMove_emptyCells)
next
  case (4 board depth isMaximizing move rest bestMove alpha beta newBoard r)
  then show ?case by simp
qed

declare minimax.simps [simp del]

section \<open>AI strategy selector\<close>

text \<open>
  \<open>Math.random()\<close> is the only source of nondeterminism. Each strategy draws at most twice;
  the two draws are the parameters \<open>r1\<close> and \<open>r2\<close>, real numbers that the caller takes from
  \<open>[0, 1)\<close>. \<open>Math.floor(Math.random() * n)\<close> is \<open>randomIndex r n\<close>.
  A strategy returns the position it read from an array, which is \<open>undefined\<close> (\<open>None\<close>) when
  the read was out of range or the search returned a terminal node.
\<close>

definition moveAt :: "int list \<Rightarrow> nat \<Rightarrow> int option" where
  "moveAt availableMoves i = (if i < length availableMoves then Some (availableMoves ! i) else None)"

definition randomIndex :: "real \<Rightarrow> nat \<Rightarrow> nat" where
  "randomIndex r n = nat \<lfloor>r * real n\<rfloor>"

fun blockingMove_loop :: "board \<Rightarrow> int list \<Rightarrow> error + int option" where
  "blockingMove_loop board [] = Inr None"
| "blockingMove_loop board (move # rest) =
     (case makeMove board move USER of
        Inl e \<Rightarrow> Inl e
      | Inr testBoard \<Rightarrow>
          (if (case checkWinner testBoard of Some w \<Rightarrow> winner w = USER | None \<Rightarrow> False)
           then Inr (Some move)
           else blockingMove_loop board rest))"

definition getEasyAIMove :: "board \<Rightarrow> real \<Rightarrow> real \<Rightarrow> error + int option" where
  "getEasyAIMove board r1 r2 =
     (let availableMoves = getAvailableMoves board in
      if length availableMoves = 0 then Inl NoAvailableMovesError
      else if r1 < 0.2 then
        (case blockingMove_loop board availableMoves of
           Inl e \<Rightarrow> Inl e
         | Inr (Some move) \<Rightarrow> Inr (Some move)
         | Inr None \<Rightarrow> Inr (moveAt availableMoves (randomIndex r2 (length availableMoves))))
      else Inr (moveAt availableMoves (randomIndex r2 (length availableMoves))))"

definition getMediumAIMove :: "board \<Rightarrow> real \<Rightarrow> real \<Rightarrow> error + int option" where
  "getMediumAIMove board r1 r2 =
     (let availableMoves = getAvailableMoves board in
      if length availableMoves = 0 then Inl NoAvailableMovesError
      else if r1 < 0.15 then Inr (moveAt availableMoves (randomIndex r2 (length availableMoves)))
      else (case minimax board 3 False NegInf PosInf of
              Inl e \<Rightarrow> Inl e
            | Inr bestMove \<Rightarrow> Inr (position bestMove)))"

definition getHardAIMove :: "board \<Rightarrow> error + int option" where
  "getHardAIMove board =
     (let availableMoves = getAvailableMoves board in
      if length availableMoves = 0 then Inl NoAvailableMovesError
      else (case minimax board 9 False NegInf PosInf of
              Inl e \<Rightarrow> Inl e
            | Inr bestMove \<Rightarrow> Inr (position bestMove)))"

definition getAIMove :: "board \<Rightarrow> string \<Rightarrow> real \<Rightarrow> real \<Rightarrow> error + int option" where
  "getAIMove board d r1 r2 =
     (if d = ''easy'' then getEasyAIMove board r1 r2
      else if d = ''medium'' then getMediumAIMove board r1 r2
      else if d = ''hard'' then getHardAIMove board
      else Inl UnknownDifficultyError)"

section \<open>Turn orchestrator\<close>

text \<open>
  The game state object. Its fields \<open>winner\<close> and \<open>winningLine\<close> are \<open>gs_winner\<close> and
  \<open>gs_winningLine\<close> here (the object returned by \<open>checkWinner\<close> has fields of the same names);
  \<open>null\<close> and an absent \<open>lastAIMove\<close> are \<open>None\<close>.
\<close>

record game_state =
  board :: board
  currentPlayer :: player
  moves :: int
  difficulty :: string
  result :: game_result
  gs_winner :: "player option"
  gs_winningLine :: "line option"
  lastAIMove :: "int option"

text \<open>The difficulty is passed on as it is given; a caller that omits it passes \<open>'medium'\<close>.\<close>

definition createInitialGameState :: "string \<Rightarrow> game_state" where
  "createInitialGameState d =
     \<lparr> board = replicate 9 EMPTY, currentPlayer = USER, moves = 0, difficulty = d,
       result = IN_PROGRESS, gs_winner = None, gs_winningLine = None, lastAIMove = None \<rparr>"

definition processUserMove :: "game_state \<Rightarrow> int \<Rightarrow> error + game_state" where
  "processUserMove gameState pos =
     (if result gameState \<noteq> IN_PROGRESS then Inl GameAlreadyEndedError
      else if currentPlayer gameState \<noteq> USER then Inl WrongTurnError
      else if \<not> isValidMove (board gameState) pos then Inl InvalidMoveError
      else
        (case makeMove (board gameState) pos USER of
           Inl e \<Rightarrow> Inl e
         | Inr newBoard \<Rightarrow>
             (let w = checkWinner newBoard;
                  res = (if w \<noteq> None then USER_WIN
                         else if isDraw newBoard then DRAW else IN_PROGRESS)
              in Inr (gameState
                   \<lparr> board := newBoard,
                     currentPlayer := (if res = IN_PROGRESS then AI else USER),
                     moves := moves gameState + 1,
                     result := res,
                     gs_winner := map_option winner w,
                     gs_winningLine := map_option winningLine w \<rparr>))))"

text \<open>
  \<open>makeMove\<close> on an \<open>undefined\<close> position raises, since \<open>undefined >= 0\<close> is false in
  \<open>isValidMove\<close>.
\<close>

definition processAIMove :: "game_state \<Rightarrow> real \<Rightarrow> real \<Rightarrow> error + game_state" where
  "processAIMove gameState r1 r2 =
     (if result gameState \<noteq> IN_PROGRESS then Inl GameAlreadyEndedError
      else if currentPlayer gameState \<noteq> AI then Inl WrongTurnError
      else
        (case getAIMove (board gameState) (difficulty gameState) r1 r2 of
           Inl e \<Rightarrow> Inl e
         | Inr None \<Rightarrow> Inl InvalidMoveError
         | Inr (Some aiPosition) \<Rightarrow>
             (case makeMove (board gameState) aiPosition AI of
                Inl e \<Rightarrow> Inl e
              | Inr newBoard \<Rightarrow>
                  (let w = checkWinner newBoard;
                       res = (if w \<noteq> None then AI_WIN
                              else if isDraw newBoard then DRAW else IN_PROGRESS)
                   in Inr (gameState
                        \<lparr> board := newBoard,
                          currentPlayer := (if res = IN_PROGRESS then USER else AI),
                          moves := moves gameState + 1,
                          result := res,
                          gs_winner := map_option winner w,
                          gs_winningLine := map_option winningLine w,
                          lastAIMove := Some aiPosition \<rparr>)))))"

definition completeTurn :: "game_state \<Rightarrow> int \<Rightarrow> real \<Rightarrow> real \<Rightarrow> error + game_state" where
  "completeTurn gameState userPosition r1 r2 =
     (case processUserMove gameState userPosition of
        Inl e \<Rightarrow> Inl e
      | Inr updatedState \<Rightarrow>
          (if result updatedState = IN_PROGRESS then processAIMove updatedState r1 r2
           else Inr updatedState))"

section \<open>Move history analysis\<close>

text \<open>
  The rows handed to \<open>analyzeMoveHistory\<close> come from the table \<open>game_moves\<close>: the player is
  the stored string, the move number the column \<open>move_number\<close>. The fields of the returned
  objects carry a prefix where the source reuses a name. A field that the returned object
  does not have is \<open>None\<close>.
\<close>

record move_row =
  row_player :: string
  row_position :: int
  move_number :: int
  timestamp :: string

record move_summary =
  ms_position :: int
  ms_moveNumber :: int
  ms_timestamp :: string

record flow_entry =
  gf_player :: string
  gf_position :: int
  gf_moveNumber :: int

record move_analysis =
  totalMoves :: int
  averageThinkTime :: "int option"
  playerMoves :: "move_summary list"
  aiMoves :: "move_summary list"
  gameFlow :: "flow_entry list option"

definition summarize :: "move_row \<Rightarrow> move_summary" where
  "summarize m =
     \<lparr> ms_position = row_position m, ms_moveNumber = move_number m, ms_timestamp = timestamp m \<rparr>"

definition flowOf :: "move_row \<Rightarrow> flow_entry" where
  "flowOf m =
     \<lparr> gf_player = row_player m, gf_position = row_position m, gf_moveNumber = move_number m \<rparr>"

definition analyzeMoveHistory :: "move_row list \<Rightarrow> move_analysis" where
  "analyzeMoveHistory ms =
     (if length ms = 0
      then \<lparr> totalMoves = 0, averageThinkTime = Some 0, playerMoves = [], aiMoves = [],
             gameFlow = None \<rparr>
      else \<lparr> totalMoves = int (length ms), averageThinkTime = None,
             playerMoves = map summarize (filter (\<lambda>m. row_player m = ''user'') ms),
             aiMoves = map summarize (filter (\<lambda>m. row_player m = ''ai'') ms),
             gameFlow = Some (map flowOf ms) \<rparr>)"

text \<open>
  The states a game can be in: the initial state of some difficulty, followed by successful
  calls of \<open>processUserMove\<close> and \<open>processAIMove\<close>, the latter with any draws from
  \<open>[0, 1)\<close>.
\<close>

inductive reachable :: "game_state \<Rightarrow> bool" where
  reachable_init: "reachable (createInitialGameState d)"
| reachable_user: "reachable s \<Longrightarrow> processUserMove s pos = Inr s' \<Longrightarrow> reachable s'"
| reachable_ai:
    "reachable s \<Longrightarrow> 0 \<le> r1 \<Longrightarrow> r1 < 1 \<Longrightarrow> 0 \<le> r2 \<Longrightarrow> r2 < 1 \<Longrightarrow>
     processAIMove s r1 r2 = Inr s' \<Longrightarrow> reachable s'"

definition nonEmptyCells :: "board \<Rightarrow> nat" where
  "nonEmptyCells b = length (filter (\<lambda>c. c \<noteq> EMPTY) b)"

section \<open>Arrays in a store\<close>

text \<open>
  \<open>makeMove\<close> with the arrays in a store, a reference being an index into it:
  \<open>[...board]\<close> allocates a fresh array holding a copy, and the assignment writes to the
  fresh array.
\<close>

type_synonym store = "board list"

definition makeMove_store :: "store \<Rightarrow> nat \<Rightarrow> int \<Rightarrow> player \<Rightarrow> error + (store \<times> nat)" where
  "makeMove_store h boardRef pos p =
     (if \<not> isValidMove (h ! boardRef) pos then Inl InvalidMoveError
      else
        (let newBoardRef = length h;
             h1 = h @ [h ! boardRef];
             h2 = h1[newBoardRef := (h1 ! newBoardRef)[nat pos := (if p = USER then MARK_X else MARK_O)]]
         in Inr (h2, newBoardRef)))"

section \<open>Reference definitions for the search\<close>

lemma availableMove_emptyCells:
  assumes "m \<in> set (getAvailableMoves b)" "c \<noteq> EMPTY"
  shows "emptyCells (b[nat m := c]) < emptyCells b"
proof -
  from assms(1) have "nat m < length b" "b ! nat m = EMPTY"
    by (auto simp: getAvailableMoves_def)
  then show ?thesis using assms(2) by (rule emptyCells_update)
qed

text \<open>
  Plain minimax, the search of \<open>minimax\<close> without the alpha/beta window and without
  pruning: the same terminal scores, every legal move tried with the mark of the side to
  move, the children folded by maximum on the AI's ply and by minimum on the user's ply.
\<close>

function plainMinimax :: "board \<Rightarrow> int \<Rightarrow> bool \<Rightarrow> int" where
  "plainMinimax b depth isMaximizing =
     (case checkWinner b of
        Some w \<Rightarrow> (if winner w = AI then 10 - (9 - depth) else - 10 + (9 - depth))
      | None \<Rightarrow>
          (if isDraw b \<or> depth = 0 then 0
           else
             (let vs = map (\<lambda>m. plainMinimax (b[nat m := (if isMaximizing then MARK_O else MARK_X)])
                                  (depth - 1) (\<not> isMaximizing))
                           (getAvailableMoves b)
              in if isMaximizing then Max (set vs) else Min (set vs))))"
  by pat_completeness auto
termination
  by (relation "measure (\<lambda>(b, d, i). emptyCells b)") (auto simp: availableMove_emptyCells)

declare plainMinimax.simps [simp del]

text \<open>
  The score of a top-level candidate move: the plain minimax value of the board after the
  move, made with the mark of the side that is to move at the top ply.
\<close>

definition candidateScore :: "board \<Rightarrow> int \<Rightarrow> bool \<Rightarrow> int \<Rightarrow> int" where
  "candidateScore b depth isMaximizing m =
     plainMinimax (b[nat m := (if isMaximizing then MARK_O else MARK_X)]) (depth - 1) (\<not> isMaximizing)"

text \<open>
  The move of the specified hard tier: full depth, the AI maximizing at the top ply, the
  first move in ascending order with the highest score.
\<close>

fun firstBest :: "(int \<Rightarrow> int) \<Rightarrow> int list \<Rightarrow> int option" where
  "firstBest f [] = None"
| "firstBest f (m # ms) =
     (case firstBest f ms of
        None \<Rightarrow> Some m
      | Some m' \<Rightarrow> (if f m' > f m then Some m' else Some m))"

definition specHardMove :: "board \<Rightarrow> int option" where
  "specHardMove b = firstBest (candidateScore b 9 True) (getAvailableMoves b)"

text \<open>
  The user can force a win from a board, with the given side to move: a board with a
  winner is decided, a full board is not a win, the user needs one winning move and the AI
  has to lose with every move.
\<close>

function userCanForceWin :: "board \<Rightarrow> bool \<Rightarrow> bool" where
  "userCanForceWin b userToMove =
     (case checkWinner b of
        Some w \<Rightarrow> winner w = USER
      | None \<Rightarrow>
          (if isDraw b then False
           else if userToMove
             then list_ex (\<lambda>m. userCanForceWin (b[nat m := MARK_X]) False) (getAvailableMoves b)
             else list_all (\<lambda>m. userCanForceWin (b[nat m := MARK_O]) True) (getAvailableMoves b)))"
  by pat_completeness auto
termination
  by (relation "measure (\<lambda>(b, u). emptyCells b)") (auto simp: availableMove_emptyCells)

text \<open>
  A legal game from a board: the sides alternate, every move is made by \<open>makeMove\<close> on a
  board whose game is still in progress.
\<close>

fun playFrom :: "board \<Rightarrow> player \<Rightarrow> int list \<Rightarrow> board option" where
  "playFrom b p [] = Some b"
| "playFrom b p (m # ms) =
     (if getGameResult b \<noteq> IN_PROGRESS then None
      else (case makeMove b m p of
              Inl e \<Rightarrow> None
            | Inr b' \<Rightarrow> playFrom b' (if p = USER then AI else USER) ms))"

text \<open>A line holds the same mark in its three cells.\<close>

definition lineOwned :: "board \<Rightarrow> line \<Rightarrow> cell \<Rightarrow> bool" where
  "lineOwned b l mk \<longleftrightarrow>
     (case l of (x, y, z) \<Rightarrow> cellAt b x = Some mk \<and> cellAt b y = Some mk \<and> cellAt b z = Some mk)"

section \<open>Notions for the correctness of pruning\<close>

text \<open>
  A score \<open>r\<close> returned for the window from \<open>alpha\<close> to \<open>beta\<close> approximates the exact value
  \<open>v\<close>: it is exact inside the window, and outside it lies between the window and \<open>v\<close>.
\<close>

definition windowApprox :: "'a::linorder \<Rightarrow> 'a \<Rightarrow> 'a \<Rightarrow> 'a \<Rightarrow> bool" where
  "windowApprox alpha beta v r \<longleftrightarrow>
     (r \<le> alpha \<longrightarrow> v \<le> r) \<and> (alpha < r \<and> r < beta \<longrightarrow> r = v) \<and> (beta \<le> r \<longrightarrow> r \<le> v)"

text \<open>
  What the loop of a maximizing node has established when it returns the score \<open>r\<close>, having
  started with the best score \<open>sb\<close> and the exact values \<open>S\<close> of the moves still to try; and
  the same for a minimizing node.
\<close>

definition maxLoopPost :: "'a::linorder \<Rightarrow> 'a \<Rightarrow> 'a \<Rightarrow> 'a set \<Rightarrow> 'a \<Rightarrow> bool" where
  "maxLoopPost alpha beta sb S r \<longleftrightarrow>
     sb \<le> r
     \<and> (r \<le> alpha \<longrightarrow> (\<forall>v \<in> S. v \<le> r))
     \<and> (beta \<le> r \<longrightarrow> (\<exists>v \<in> S. r \<le> v))
     \<and> (alpha < r \<and> r < beta \<longrightarrow> (\<forall>v \<in> S. v \<le> r) \<and> r \<in> S)"

definition minLoopPost :: "'a::linorder \<Rightarrow> 'a \<Rightarrow> 'a \<Rightarrow> 'a set \<Rightarrow> 'a \<Rightarrow> bool" where
  "minLoopPost alpha beta sb S r \<longleftrightarrow>
     r \<le> sb
     \<and> (beta \<le> r \<longrightarrow> (\<forall>v \<in> S. r \<le> v))
     \<and> (r \<le> alpha \<longrightarrow> (\<exists>v \<in> S. v \<le> r))
     \<and> (alpha < r \<and> r < beta \<longrightarrow> (\<forall>v \<in> S. r \<le> v) \<and> r \<in> S)"

text \<open>
  The scan without pruning that the top ply amounts to: a move replaces the running best
  move when its exact score is strictly better, lower on a minimizing ply and higher on a
  maximizing ply.
\<close>

definition keepBetter :: "bool \<Rightarrow> (int \<Rightarrow> int) \<Rightarrow> int \<Rightarrow> search_result \<Rightarrow> search_result" where
  "keepBetter isMaximizing f m acc =
     (if (if isMaximizing then score acc < Fin (f m) else Fin (f m) < score acc)
      then \<lparr> position = Some m, score = Fin (f m) \<rparr> else acc)"

text \<open>
  The window of the loop at the top ply, called with the full window: the bound on the side
  of the mover is the running best score, the other bound is still infinite.
\<close>

definition topWindow :: "bool \<Rightarrow> search_result \<Rightarrow> jsnum \<Rightarrow> jsnum \<Rightarrow> bool" where
  "topWindow isMaximizing bestMove alpha beta \<longleftrightarrow>
     (if isMaximizing then beta = PosInf \<and> alpha = score bestMove \<and> alpha < PosInf
      else alpha = NegInf \<and> beta = score bestMove \<and> NegInf < beta)"

section \<open>Properties of the board model\<close>

lemma isValidMove_iff:
  "isValidMove b pos \<longleftrightarrow> 0 \<le> pos \<and> pos \<le> 8 \<and> nat pos < length b \<and> b ! nat pos = EMPTY"
  by (auto simp: isValidMove_def cellAt_def)

lemma makeMove_Inr_iff:
  "makeMove b pos p = Inr nb \<longleftrightarrow>
     isValidMove b pos \<and> nb = b[nat pos := (if p = USER then MARK_X else MARK_O)]"
  by (auto simp: makeMove_def)

lemma makeMove_Inl_iff: "makeMove b pos p = Inl e \<longleftrightarrow> \<not> isValidMove b pos \<and> e = InvalidMoveError"
  by (auto simp: makeMove_def)

text \<open>
  C8. \<open>isValidMove\<close> holds exactly for a position from 0 to 8 whose cell is empty: it rejects
  \<open>-1\<close>, 9 and every occupied cell, and accepts all nine positions of the empty board.
  \<open>makeMove\<close> raises the invalid-move error exactly when \<open>isValidMove\<close> is false; otherwise
  it returns a board of the same length that holds the player's mark at the position and
  agrees with the input board everywhere else. With the arrays in a store, the result is a
  fresh array and every array that was in the store, the input board among them, is
  unchanged.
\<close>

theorem isValidMove_makeMove_correct:
  "(isValidMove b pos \<longleftrightarrow> 0 \<le> pos \<and> pos \<le> 8 \<and> nat pos < length b \<and> b ! nat pos = EMPTY)
   \<and> \<not> isValidMove b (- 1) \<and> \<not> isValidMove b 9
   \<and> (nat pos < length b \<and> b ! nat pos \<noteq> EMPTY \<longrightarrow> \<not> isValidMove b pos)
   \<and> (\<forall>q \<in> {0 .. 8}. isValidMove (replicate 9 EMPTY) q)
   \<and> (makeMove b pos p = Inl InvalidMoveError \<longleftrightarrow> \<not> isValidMove b pos)
   \<and> (isValidMove b pos \<longrightarrow>
        (\<exists>nb. makeMove b pos p = Inr nb \<and> length nb = length b
           \<and> nb ! nat pos = (if p = USER then MARK_X else MARK_O)
           \<and> (\<forall>i < length b. i \<noteq> nat pos \<longrightarrow> nb ! i = b ! i)))
   \<and> (boardRef < length h \<longrightarrow>
        (case makeMove_store h boardRef pos p of
           Inl e \<Rightarrow> makeMove (h ! boardRef) pos p = Inl e
         | Inr (h', newBoardRef) \<Rightarrow>
             newBoardRef = length h \<and> take (length h) h' = h
             \<and> makeMove (h ! boardRef) pos p = Inr (h' ! newBoardRef)))"
proof -
  have a: "\<forall>q \<in> {0 .. 8}. isValidMove (replicate 9 EMPTY) q"
    by (auto simp: isValidMove_iff)
  have b: "isValidMove b pos \<longrightarrow>
        (\<exists>nb. makeMove b pos p = Inr nb \<and> length nb = length b
           \<and> nb ! nat pos = (if p = USER then MARK_X else MARK_O)
           \<and> (\<forall>i < length b. i \<noteq> nat pos \<longrightarrow> nb ! i = b ! i))"
    by (auto simp: makeMove_Inr_iff isValidMove_iff)
  have c: "boardRef < length h \<longrightarrow>
        (case makeMove_store h boardRef pos p of
           Inl e \<Rightarrow> makeMove (h ! boardRef) pos p = Inl e
         | Inr (h', newBoardRef) \<Rightarrow>
             newBoardRef = length h \<and> take (length h) h' = h
             \<and> makeMove (h ! boardRef) pos p = Inr (h' ! newBoardRef))"
    by (auto simp: makeMove_store_def makeMove_def Let_def nth_append)
  have d: "makeMove b pos p = Inl InvalidMoveError \<longleftrightarrow> \<not> isValidMove b pos"
    by (simp add: makeMove_Inl_iff)
  have e: "\<not> isValidMove b (- 1) \<and> \<not> isValidMove b 9"
    by (simp add: isValidMove_iff)
  show ?thesis
    using a b c d e by (simp add: isValidMove_iff)
qed

theorem isValidMove_makeMove_correct_witness:
  "isValidMove [MARK_X, EMPTY, EMPTY, EMPTY, MARK_O, EMPTY, EMPTY, EMPTY, EMPTY] 2
   \<and> \<not> isValidMove [MARK_X, EMPTY, EMPTY, EMPTY, MARK_O, EMPTY, EMPTY, EMPTY, EMPTY] 4
   \<and> isValidMove (replicate 9 EMPTY) 8
   \<and> makeMove [MARK_X, EMPTY, EMPTY, EMPTY, MARK_O, EMPTY, EMPTY, EMPTY, EMPTY] 4 USER
       = Inl InvalidMoveError
   \<and> makeMove [MARK_X, EMPTY, EMPTY, EMPTY, MARK_O, EMPTY, EMPTY, EMPTY, EMPTY] 2 USER
       = Inr [MARK_X, EMPTY, MARK_X, EMPTY, MARK_O, EMPTY, EMPTY, EMPTY, EMPTY]
   \<and> makeMove_store [[MARK_X, EMPTY, EMPTY, EMPTY, MARK_O, EMPTY, EMPTY, EMPTY, EMPTY]] 0 2 USER
       = Inr ([[MARK_X, EMPTY, EMPTY, EMPTY, MARK_O, EMPTY, EMPTY, EMPTY, EMPTY],
               [MARK_X, EMPTY, MARK_X, EMPTY, MARK_O, EMPTY, EMPTY, EMPTY, EMPTY]], 1)"
  using isValidMove_makeMove_correct
    [of "[MARK_X, EMPTY, EMPTY, EMPTY, MARK_O, EMPTY, EMPTY, EMPTY, EMPTY]" 2 USER 0
        "[[MARK_X, EMPTY, EMPTY, EMPTY, MARK_O, EMPTY, EMPTY, EMPTY, EMPTY]]"]
    isValidMove_makeMove_correct
    [of "[MARK_X, EMPTY, EMPTY, EMPTY, MARK_O, EMPTY, EMPTY, EMPTY, EMPTY]" 4 USER 0
        "[[MARK_X, EMPTY, EMPTY, EMPTY, MARK_O, EMPTY, EMPTY, EMPTY, EMPTY]]"]
  by (simp add: makeMove_def makeMove_store_def Let_def)

section \<open>Properties of the rules engine\<close>

lemma truthy_iff: "truthy c \<longleftrightarrow> c = Some MARK_X \<or> c = Some MARK_O"
  by (cases c rule: truthy.cases) simp_all

lemma lineMatches_iff: "lineMatches b l \<longleftrightarrow> lineOwned b l MARK_X \<or> lineOwned b l MARK_O"
  by (cases l) (auto simp: lineMatches_def lineOwned_def truthy_iff)

lemma checkWinner_loop_None:
  "checkWinner_loop b ls = None \<longleftrightarrow> (\<forall>l \<in> set ls. \<not> lineMatches b l)"
  by (induction ls) auto

lemma checkWinner_loop_Some:
  "checkWinner_loop b ls = Some w \<Longrightarrow>
     \<exists>i < length ls. winningLine w = ls ! i \<and> lineMatches b (ls ! i)
        \<and> (\<forall>j < i. \<not> lineMatches b (ls ! j))
        \<and> winner w = (if cellAt b (fst (ls ! i)) = Some MARK_X then USER else AI)"
proof (induction ls)
  case Nil
  then show ?case by simp
next
  case (Cons l ls)
  show ?case
  proof (cases "lineMatches b l")
    case True
    with Cons.prems have "w = \<lparr> winner = (if cellAt b (fst l) = Some MARK_X then USER else AI),
                                winningLine = l \<rparr>"
      by simp
    with True have "winningLine w = (l # ls) ! 0 \<and> lineMatches b ((l # ls) ! 0)
        \<and> (\<forall>j < 0. \<not> lineMatches b ((l # ls) ! j))
        \<and> winner w = (if cellAt b (fst ((l # ls) ! 0)) = Some MARK_X then USER else AI)"
      by simp
    then show ?thesis by blast
  next
    case False
    with Cons.prems have "checkWinner_loop b ls = Some w" by simp
    from Cons.IH [OF this] obtain i where i: "i < length ls" "winningLine w = ls ! i"
      "lineMatches b (ls ! i)" "\<forall>j < i. \<not> lineMatches b (ls ! j)"
      "winner w = (if cellAt b (fst (ls ! i)) = Some MARK_X then USER else AI)"
      by blast
    have "\<forall>j < Suc i. \<not> lineMatches b ((l # ls) ! j)"
      using False i(4) by (auto simp: less_Suc_eq_0_disj)
    with i have "Suc i < length (l # ls) \<and> winningLine w = (l # ls) ! Suc i
        \<and> lineMatches b ((l # ls) ! Suc i)
        \<and> (\<forall>j < Suc i. \<not> lineMatches b ((l # ls) ! j))
        \<and> winner w = (if cellAt b (fst ((l # ls) ! Suc i)) = Some MARK_X then USER else AI)"
      by simp
    then show ?thesis by blast
  qed
qed

lemma lineOwned_winner:
  assumes "lineMatches b l"
  shows "lineOwned b l (if (if cellAt b (fst l) = Some MARK_X then USER else AI) = USER
                        then MARK_X else MARK_O)"
  using assms by (cases l) (auto simp: lineMatches_def lineOwned_def truthy_iff)

text \<open>
  C7. \<open>checkWinner\<close> scans the eight lines in the order rows, columns, diagonals. It reports
  no winner exactly when no line holds three equal marks. When it reports a winner, the
  reported line is one of the eight, it is the first line in scan order that holds three
  equal marks, and the reported player is the owner of the mark on it (the user for
  \<open>'X'\<close>, the AI for \<open>'O'\<close>). The result holds at most one line.
\<close>

theorem checkWinner_first_match:
  "winningCombinations =
     [(0, 1, 2), (3, 4, 5), (6, 7, 8), (0, 3, 6), (1, 4, 7), (2, 5, 8), (0, 4, 8), (2, 4, 6)]
   \<and> (checkWinner b = None \<longleftrightarrow>
        (\<forall>l \<in> set winningCombinations. \<not> lineOwned b l MARK_X \<and> \<not> lineOwned b l MARK_O))
   \<and> (\<forall>w. checkWinner b = Some w \<longrightarrow>
        (\<exists>i < length winningCombinations.
           winningLine w = winningCombinations ! i
           \<and> lineOwned b (winningLine w) (if winner w = USER then MARK_X else MARK_O)
           \<and> (\<forall>j < i. \<not> lineOwned b (winningCombinations ! j) MARK_X
                     \<and> \<not> lineOwned b (winningCombinations ! j) MARK_O)))"
proof (intro conjI allI impI)
  show "winningCombinations =
     [(0, 1, 2), (3, 4, 5), (6, 7, 8), (0, 3, 6), (1, 4, 7), (2, 5, 8), (0, 4, 8), (2, 4, 6)]"
    by (simp add: winningCombinations_def)
  show "checkWinner b = None \<longleftrightarrow>
        (\<forall>l \<in> set winningCombinations. \<not> lineOwned b l MARK_X \<and> \<not> lineOwned b l MARK_O)"
    unfolding checkWinner_def checkWinner_loop_None by (simp add: lineMatches_iff)
next
  fix w
  assume "checkWinner b = Some w"
  then have "checkWinner_loop b winningCombinations = Some w"
    by (simp add: checkWinner_def)
  from checkWinner_loop_Some [OF this] obtain i where i: "i < length winningCombinations"
    "winningLine w = winningCombinations ! i" "lineMatches b (winningCombinations ! i)"
    "\<forall>j < i. \<not> lineMatches b (winningCombinations ! j)"
    "winner w = (if cellAt b (fst (winningCombinations ! i)) = Some MARK_X then USER else AI)"
    by blast
  have "lineOwned b (winningLine w) (if winner w = USER then MARK_X else MARK_O)"
    using lineOwned_winner [OF i(3)] i(2) i(5) by simp
  moreover have "\<forall>j < i. \<not> lineOwned b (winningCombinations ! j) MARK_X
                     \<and> \<not> lineOwned b (winningCombinations ! j) MARK_O"
    using i(4) by (simp add: lineMatches_iff)
  ultimately show "\<exists>i < length winningCombinations.
           winningLine w = winningCombinations ! i
           \<and> lineOwned b (winningLine w) (if winner w = USER then MARK_X else MARK_O)
           \<and> (\<forall>j < i. \<not> lineOwned b (winningCombinations ! j) MARK_X
                     \<and> \<not> lineOwned b (winningCombinations ! j) MARK_O)"
    using i(1) i(2) by blast
qed

theorem checkWinner_first_match_witness:
  "checkWinner [MARK_O, MARK_X, MARK_X, MARK_O, MARK_X, EMPTY, MARK_O, MARK_X, EMPTY]
     = Some \<lparr> winner = AI, winningLine = (0, 3, 6) \<rparr>
   \<and> lineOwned [MARK_O, MARK_X, MARK_X, MARK_O, MARK_X, EMPTY, MARK_O, MARK_X, EMPTY]
       (0, 3, 6) MARK_O
   \<and> lineOwned [MARK_O, MARK_X, MARK_X, MARK_O, MARK_X, EMPTY, MARK_O, MARK_X, EMPTY]
       (1, 4, 7) MARK_X
   \<and> checkWinner [MARK_X, MARK_O, MARK_X, MARK_X, MARK_O, MARK_O, MARK_O, MARK_X, MARK_X] = None"
  using checkWinner_first_match
    [of "[MARK_O, MARK_X, MARK_X, MARK_O, MARK_X, EMPTY, MARK_O, MARK_X, EMPTY]"]
    checkWinner_first_match
    [of "[MARK_X, MARK_O, MARK_X, MARK_X, MARK_O, MARK_O, MARK_O, MARK_X, MARK_X]"]
  by (simp add: checkWinner_def winningCombinations_def lineMatches_def lineOwned_def cellAt_def)


section \<open>Properties of the move history analysis\<close>

text \<open>
  On the path for a non-empty list the record has \<open>totalMoves\<close>, the length of the list,
  \<open>playerMoves\<close> and \<open>aiMoves\<close>, the projections to position, move number and timestamp
  of the rows of the user and of the AI, and \<open>gameFlow\<close>, the player, position and move
  number of every row in input order; it has no \<open>averageThinkTime\<close>. The move number is
  read from the field \<open>move_number\<close> of a row. The first three fields have these values
  for the empty list as well.
\<close>

lemma analyzeMoveHistory_nonempty_path:
  "totalMoves (analyzeMoveHistory ms) = int (length ms)
   \<and> playerMoves (analyzeMoveHistory ms) =
       map (\<lambda>m. \<lparr> ms_position = row_position m, ms_moveNumber = move_number m,
                   ms_timestamp = timestamp m \<rparr>)
           (filter (\<lambda>m. row_player m = ''user'') ms)
   \<and> aiMoves (analyzeMoveHistory ms) =
       map (\<lambda>m. \<lparr> ms_position = row_position m, ms_moveNumber = move_number m,
                   ms_timestamp = timestamp m \<rparr>)
           (filter (\<lambda>m. row_player m = ''ai'') ms)
   \<and> (ms \<noteq> [] \<longrightarrow>
        gameFlow (analyzeMoveHistory ms) =
          Some (map (\<lambda>m. \<lparr> gf_player = row_player m, gf_position = row_position m,
                            gf_moveNumber = move_number m \<rparr>) ms)
        \<and> averageThinkTime (analyzeMoveHistory ms) = None)"
proof -
  have s: "summarize = (\<lambda>m. \<lparr> ms_position = row_position m, ms_moveNumber = move_number m,
                   ms_timestamp = timestamp m \<rparr>)"
    by (rule ext) (simp add: summarize_def)
  have f: "flowOf = (\<lambda>m. \<lparr> gf_player = row_player m, gf_position = row_position m,
                            gf_moveNumber = move_number m \<rparr>)"
    by (rule ext) (simp add: flowOf_def)
  show ?thesis
    unfolding s [symmetric] f [symmetric] by (simp add: analyzeMoveHistory_def)
qed

text \<open>
  C9 asks for a record with the four fields \<open>totalMoves\<close>, \<open>playerMoves\<close>, \<open>aiMoves\<close> and
  \<open>gameFlow\<close> for every input list, the empty list included. For the empty list the guard
  at the head of the function returns a literal that has no \<open>gameFlow\<close> field and has
  \<open>averageThinkTime = 0\<close>, a field that the path for a non-empty list does not have. The
  two return shapes disagree in both directions: a list of one row gets \<open>gameFlow\<close> and no
  \<open>averageThinkTime\<close>.
\<close>

theorem analyzeMoveHistory_empty_lacks_gameFlow:
  "analyzeMoveHistory []
   = \<lparr> totalMoves = 0, averageThinkTime = Some 0, playerMoves = [], aiMoves = [],
       gameFlow = None \<rparr>
   \<and> analyzeMoveHistory
       [\<lparr> row_player = ''user'', row_position = 4, move_number = 1, timestamp = ''t1'' \<rparr>]
   = \<lparr> totalMoves = 1, averageThinkTime = None,
       playerMoves = [\<lparr> ms_position = 4, ms_moveNumber = 1, ms_timestamp = ''t1'' \<rparr>],
       aiMoves = [],
       gameFlow = Some [\<lparr> gf_player = ''user'', gf_position = 4, gf_moveNumber = 1 \<rparr>] \<rparr>"
  by (simp add: analyzeMoveHistory_def summarize_def flowOf_def)

section \<open>Properties of the turn orchestrator\<close>

text \<open>
  C5. \<open>processUserMove\<close> checks, in this order, that the game is in progress, that it is
  the user's turn and that the position is legal, and fails with the error of the first
  check that does not hold; it fails in no other case, and a failure carries an error and
  no state. On success the new state holds the board with the user's mark at the position
  and one more move; result, winner and winning line are computed from the new board; the
  current player is the AI exactly when the result is still in progress and stays the user
  otherwise; difficulty and last AI move are kept.
\<close>

theorem processUserMove_correct:
  "(result s \<noteq> IN_PROGRESS \<longrightarrow> processUserMove s pos = Inl GameAlreadyEndedError)
   \<and> (result s = IN_PROGRESS \<and> currentPlayer s \<noteq> USER \<longrightarrow>
        processUserMove s pos = Inl WrongTurnError)
   \<and> (result s = IN_PROGRESS \<and> currentPlayer s = USER
        \<and> (pos < 0 \<or> pos > 8 \<or> cellAt (board s) (nat pos) \<noteq> Some EMPTY) \<longrightarrow>
        processUserMove s pos = Inl InvalidMoveError)
   \<and> ((\<exists>e. processUserMove s pos = Inl e) \<longleftrightarrow>
        result s \<noteq> IN_PROGRESS \<or> currentPlayer s \<noteq> USER \<or> \<not> isValidMove (board s) pos)
   \<and> (\<forall>s'. processUserMove s pos = Inr s' \<longrightarrow>
        board s' = (board s)[nat pos := MARK_X]
        \<and> moves s' = moves s + 1
        \<and> result s' = (if checkWinner (board s') \<noteq> None then USER_WIN
                        else if isDraw (board s') then DRAW else IN_PROGRESS)
        \<and> gs_winner s' = map_option winner (checkWinner (board s'))
        \<and> gs_winningLine s' = map_option winningLine (checkWinner (board s'))
        \<and> (currentPlayer s' = AI \<longleftrightarrow> result s' = IN_PROGRESS)
        \<and> (result s' \<noteq> IN_PROGRESS \<longrightarrow> currentPlayer s' = USER)
        \<and> difficulty s' = difficulty s
        \<and> lastAIMove s' = lastAIMove s)"
proof -
  have e1: "result s \<noteq> IN_PROGRESS \<longrightarrow> processUserMove s pos = Inl GameAlreadyEndedError"
    by (simp add: processUserMove_def)
  have e2: "result s = IN_PROGRESS \<and> currentPlayer s \<noteq> USER \<longrightarrow>
        processUserMove s pos = Inl WrongTurnError"
    by (simp add: processUserMove_def)
  have e3: "result s = IN_PROGRESS \<and> currentPlayer s = USER
        \<and> (pos < 0 \<or> pos > 8 \<or> cellAt (board s) (nat pos) \<noteq> Some EMPTY) \<longrightarrow>
        processUserMove s pos = Inl InvalidMoveError"
    by (auto simp: processUserMove_def isValidMove_def)
  have fail: "(\<exists>e. processUserMove s pos = Inl e) \<longleftrightarrow>
        result s \<noteq> IN_PROGRESS \<or> currentPlayer s \<noteq> USER \<or> \<not> isValidMove (board s) pos"
    by (simp add: processUserMove_def makeMove_def Let_def)
  have ok: "\<forall>s'. processUserMove s pos = Inr s' \<longrightarrow>
        board s' = (board s)[nat pos := MARK_X]
        \<and> moves s' = moves s + 1
        \<and> result s' = (if checkWinner (board s') \<noteq> None then USER_WIN
                        else if isDraw (board s') then DRAW else IN_PROGRESS)
        \<and> gs_winner s' = map_option winner (checkWinner (board s'))
        \<and> gs_winningLine s' = map_option winningLine (checkWinner (board s'))
        \<and> (currentPlayer s' = AI \<longleftrightarrow> result s' = IN_PROGRESS)
        \<and> (result s' \<noteq> IN_PROGRESS \<longrightarrow> currentPlayer s' = USER)
        \<and> difficulty s' = difficulty s
        \<and> lastAIMove s' = lastAIMove s"
  proof (intro allI impI)
    fix s'
    assume a: "processUserMove s pos = Inr s'"
    define nb where "nb = (board s)[nat pos := MARK_X]"
    define res where "res = (if checkWinner nb \<noteq> None then USER_WIN
                        else if isDraw nb then DRAW else IN_PROGRESS)"
    from a have s': "s' = s \<lparr> board := nb,
                     currentPlayer := (if res = IN_PROGRESS then AI else USER),
                     moves := moves s + 1,
                     result := res,
                     gs_winner := map_option winner (checkWinner nb),
                     gs_winningLine := map_option winningLine (checkWinner nb) \<rparr>"
      unfolding nb_def res_def
      by (simp add: processUserMove_def makeMove_def Let_def split: if_splits)
    show "board s' = (board s)[nat pos := MARK_X]
        \<and> moves s' = moves s + 1
        \<and> result s' = (if checkWinner (board s') \<noteq> None then USER_WIN
                        else if isDraw (board s') then DRAW else IN_PROGRESS)
        \<and> gs_winner s' = map_option winner (checkWinner (board s'))
        \<and> gs_winningLine s' = map_option winningLine (checkWinner (board s'))
        \<and> (currentPlayer s' = AI \<longleftrightarrow> result s' = IN_PROGRESS)
        \<and> (result s' \<noteq> IN_PROGRESS \<longrightarrow> currentPlayer s' = USER)
        \<and> difficulty s' = difficulty s
        \<and> lastAIMove s' = lastAIMove s"
      unfolding s' by (auto simp: res_def nb_def)
  qed
  show ?thesis
    by (rule conjI [OF e1 conjI [OF e2 conjI [OF e3 conjI [OF fail ok]]]])
qed

theorem processUserMove_correct_witness:
  "processUserMove
     \<lparr> board = [MARK_X, MARK_X, EMPTY, MARK_O, MARK_O, EMPTY, EMPTY, EMPTY, EMPTY],
       currentPlayer = USER, moves = 4, difficulty = ''hard'', result = IN_PROGRESS,
       gs_winner = None, gs_winningLine = None, lastAIMove = Some 4 \<rparr> 2
   = Inr \<lparr> board = [MARK_X, MARK_X, MARK_X, MARK_O, MARK_O, EMPTY, EMPTY, EMPTY, EMPTY],
           currentPlayer = USER, moves = 5, difficulty = ''hard'', result = USER_WIN,
           gs_winner = Some USER, gs_winningLine = Some (0, 1, 2), lastAIMove = Some 4 \<rparr>
   \<and> processUserMove
       \<lparr> board = [MARK_X, MARK_X, EMPTY, MARK_O, MARK_O, EMPTY, EMPTY, EMPTY, EMPTY],
         currentPlayer = USER, moves = 4, difficulty = ''hard'', result = IN_PROGRESS,
         gs_winner = None, gs_winningLine = None, lastAIMove = Some 4 \<rparr> 3
     = Inl InvalidMoveError
   \<and> processUserMove
       \<lparr> board = [MARK_X, MARK_X, EMPTY, MARK_O, MARK_O, EMPTY, EMPTY, EMPTY, EMPTY],
         currentPlayer = AI, moves = 4, difficulty = ''hard'', result = IN_PROGRESS,
         gs_winner = None, gs_winningLine = None, lastAIMove = Some 4 \<rparr> 2
     = Inl WrongTurnError
   \<and> processUserMove
       \<lparr> board = [MARK_X, MARK_X, EMPTY, MARK_O, MARK_O, EMPTY, EMPTY, EMPTY, EMPTY],
         currentPlayer = USER, moves = 4, difficulty = ''hard'', result = DRAW,
         gs_winner = None, gs_winningLine = None, lastAIMove = Some 4 \<rparr> 2
     = Inl GameAlreadyEndedError"
  using processUserMove_correct
    [of "\<lparr> board = [MARK_X, MARK_X, EMPTY, MARK_O, MARK_O, EMPTY, EMPTY, EMPTY, EMPTY],
          currentPlayer = USER, moves = 4, difficulty = ''hard'', result = IN_PROGRESS,
          gs_winner = None, gs_winningLine = None, lastAIMove = Some 4 \<rparr>" 3]
    processUserMove_correct
    [of "\<lparr> board = [MARK_X, MARK_X, EMPTY, MARK_O, MARK_O, EMPTY, EMPTY, EMPTY, EMPTY],
          currentPlayer = AI, moves = 4, difficulty = ''hard'', result = IN_PROGRESS,
          gs_winner = None, gs_winningLine = None, lastAIMove = Some 4 \<rparr>" 2]
    processUserMove_correct
    [of "\<lparr> board = [MARK_X, MARK_X, EMPTY, MARK_O, MARK_O, EMPTY, EMPTY, EMPTY, EMPTY],
          currentPlayer = USER, moves = 4, difficulty = ''hard'', result = DRAW,
          gs_winner = None, gs_winningLine = None, lastAIMove = Some 4 \<rparr>" 2]
  by (simp add: processUserMove_def makeMove_def isValidMove_def cellAt_def Let_def
      checkWinner_def winningCombinations_def lineMatches_def isDraw_def)

section \<open>The move counter of reachable states\<close>

lemma nonEmptyCells_update:
  assumes "i < length b" "b ! i = EMPTY" "c \<noteq> EMPTY"
  shows "nonEmptyCells (b[i := c]) = Suc (nonEmptyCells b)"
  using assms
proof (induction b arbitrary: i)
  case Nil
  then show ?case by simp
next
  case (Cons a b)
  then show ?case
    by (cases i) (auto simp: nonEmptyCells_def)
qed

lemma nonEmptyCells_le: "nonEmptyCells b \<le> length b"
  by (simp add: nonEmptyCells_def)

lemma nonEmptyCells_full:
  "nonEmptyCells b = length b \<longleftrightarrow> list_all (\<lambda>c. c \<noteq> EMPTY) b"
proof (induction b)
  case Nil
  then show ?case by (simp add: nonEmptyCells_def)
next
  case (Cons a b)
  have "length (filter (\<lambda>c. c \<noteq> EMPTY) b) \<noteq> Suc (length b)"
    using length_filter_le [of "\<lambda>c. c \<noteq> EMPTY" b] by linarith
  with Cons show ?case
    by (auto simp: nonEmptyCells_def)
qed

lemma makeMove_counts:
  assumes "makeMove b pos p = Inr nb"
  shows "length nb = length b \<and> nonEmptyCells nb = Suc (nonEmptyCells b)"
proof -
  from assms have v: "isValidMove b pos"
    and nb: "nb = b[nat pos := (if p = USER then MARK_X else MARK_O)]"
    by (simp_all add: makeMove_Inr_iff)
  from v have "nat pos < length b" "b ! nat pos = EMPTY"
    by (simp_all add: isValidMove_iff)
  then show ?thesis
    unfolding nb by (simp add: nonEmptyCells_update)
qed

text \<open>The invariant that every step of the orchestrator keeps.\<close>

lemma step_invariant:
  assumes mv: "makeMove (board s) pos p = Inr nb"
    and len: "length (board s) = 9"
    and cnt: "moves s = int (nonEmptyCells (board s))"
    and res: "res = IN_PROGRESS \<longrightarrow> \<not> isDraw nb \<and> checkWinner nb = None"
  shows "length nb = 9 \<and> moves s + 1 = int (nonEmptyCells nb)
         \<and> (res = IN_PROGRESS \<longrightarrow> \<not> list_all (\<lambda>c. c \<noteq> EMPTY) nb)"
  using makeMove_counts [OF mv] len cnt res by (auto simp: isDraw_def)

lemma processUserMove_invariant:
  assumes "processUserMove s pos = Inr s'"
    and "length (board s) = 9" and "moves s = int (nonEmptyCells (board s))"
  shows "length (board s') = 9 \<and> moves s' = int (nonEmptyCells (board s'))
         \<and> (result s' = IN_PROGRESS \<longrightarrow> \<not> list_all (\<lambda>c. c \<noteq> EMPTY) (board s'))"
proof -
  from assms(1) obtain nb where mv: "makeMove (board s) pos USER = Inr nb"
    and s': "board s' = nb" "moves s' = moves s + 1"
      "result s' = (if checkWinner nb \<noteq> None then USER_WIN
                    else if isDraw nb then DRAW else IN_PROGRESS)"
    by (auto simp: processUserMove_def Let_def split: if_splits sum.splits)
  have "result s' = IN_PROGRESS \<longrightarrow> \<not> isDraw nb \<and> checkWinner nb = None"
    unfolding s'(3) by (simp split: if_splits)
  from step_invariant [OF mv assms(2) assms(3) this] show ?thesis
    by (simp add: s')
qed

lemma processAIMove_invariant:
  assumes "processAIMove s r1 r2 = Inr s'"
    and "length (board s) = 9" and "moves s = int (nonEmptyCells (board s))"
  shows "length (board s') = 9 \<and> moves s' = int (nonEmptyCells (board s'))
         \<and> (result s' = IN_PROGRESS \<longrightarrow> \<not> list_all (\<lambda>c. c \<noteq> EMPTY) (board s'))"
proof -
  from assms(1) obtain nb aiPosition where mv: "makeMove (board s) aiPosition AI = Inr nb"
    and s': "board s' = nb" "moves s' = moves s + 1"
      "result s' = (if checkWinner nb \<noteq> None then AI_WIN
                    else if isDraw nb then DRAW else IN_PROGRESS)"
    by (auto simp: processAIMove_def Let_def split: if_splits sum.splits option.splits)
  have "result s' = IN_PROGRESS \<longrightarrow> \<not> isDraw nb \<and> checkWinner nb = None"
    unfolding s'(3) by (simp split: if_splits)
  from step_invariant [OF mv assms(2) assms(3) this] show ?thesis
    by (simp add: s')
qed

lemma reachable_invariant:
  assumes "reachable s"
  shows "length (board s) = 9 \<and> moves s = int (nonEmptyCells (board s))
         \<and> (result s = IN_PROGRESS \<longrightarrow> \<not> list_all (\<lambda>c. c \<noteq> EMPTY) (board s))"
  using assms
proof (induction rule: reachable.induct)
  case (reachable_init d)
  show ?case
    by (simp add: createInitialGameState_def nonEmptyCells_def list_all_iff)
next
  case (reachable_user s pos s')
  then show ?case
    using processUserMove_invariant [of s pos s'] by blast
next
  case (reachable_ai s r1 r2 s')
  then show ?case
    using processAIMove_invariant [of s r1 r2 s'] by blast
qed

text \<open>A drawn game of nine moves against the easy tier, as a reachable state.\<close>

lemma drawn_game_reachable:
  "reachable
     \<lparr> board = [MARK_X, MARK_O, MARK_X, MARK_X, MARK_O, MARK_O, MARK_O, MARK_X, MARK_X],
       currentPlayer = USER, moves = 9, difficulty = ''easy'', result = DRAW,
       gs_winner = None, gs_winningLine = None, lastAIMove = Some 6 \<rparr>"
proof -
  let ?st = "\<lambda>b p n r l. \<lparr> board = b, currentPlayer = p, moves = n, difficulty = ''easy'',
                  result = r, gs_winner = None, gs_winningLine = None, lastAIMove = l \<rparr>"
  let ?s1 = "?st [MARK_X, EMPTY, EMPTY, EMPTY, EMPTY, EMPTY, EMPTY, EMPTY, EMPTY]
               AI 1 IN_PROGRESS None"
  let ?s2 = "?st [MARK_X, MARK_O, EMPTY, EMPTY, EMPTY, EMPTY, EMPTY, EMPTY, EMPTY]
               USER 2 IN_PROGRESS (Some 1)"
  let ?s3 = "?st [MARK_X, MARK_O, MARK_X, EMPTY, EMPTY, EMPTY, EMPTY, EMPTY, EMPTY]
               AI 3 IN_PROGRESS (Some 1)"
  let ?s4 = "?st [MARK_X, MARK_O, MARK_X, EMPTY, MARK_O, EMPTY, EMPTY, EMPTY, EMPTY]
               USER 4 IN_PROGRESS (Some 4)"
  let ?s5 = "?st [MARK_X, MARK_O, MARK_X, MARK_X, MARK_O, EMPTY, EMPTY, EMPTY, EMPTY]
               AI 5 IN_PROGRESS (Some 4)"
  let ?s6 = "?st [MARK_X, MARK_O, MARK_X, MARK_X, MARK_O, MARK_O, EMPTY, EMPTY, EMPTY]
               USER 6 IN_PROGRESS (Some 5)"
  let ?s7 = "?st [MARK_X, MARK_O, MARK_X, MARK_X, MARK_O, MARK_O, EMPTY, MARK_X, EMPTY]
               AI 7 IN_PROGRESS (Some 5)"
  let ?s8 = "?st [MARK_X, MARK_O, MARK_X, MARK_X, MARK_O, MARK_O, MARK_O, MARK_X, EMPTY]
               USER 8 IN_PROGRESS (Some 6)"
  let ?s9 = "?st [MARK_X, MARK_O, MARK_X, MARK_X, MARK_O, MARK_O, MARK_O, MARK_X, MARK_X]
               USER 9 DRAW (Some 6)"
  have m1: "processUserMove (createInitialGameState ''easy'') 0 = Inr ?s1" by code_simp
  have m2: "processAIMove ?s1 (1 / 2) 0 = Inr ?s2" by code_simp
  have m3: "processUserMove ?s2 2 = Inr ?s3" by code_simp
  have m4: "processAIMove ?s3 (1 / 2) (1 / 4) = Inr ?s4" by code_simp
  have m5: "processUserMove ?s4 3 = Inr ?s5" by code_simp
  have m6: "processAIMove ?s5 (1 / 2) 0 = Inr ?s6" by code_simp
  have m7: "processUserMove ?s6 7 = Inr ?s7" by code_simp
  have m8: "processAIMove ?s7 (1 / 2) 0 = Inr ?s8" by code_simp
  have m9: "processUserMove ?s8 8 = Inr ?s9" by code_simp
  have h: "(0::real) \<le> 1 / 2" "(1::real) / 2 < 1" "(0::real) \<le> 0" "(0::real) < 1"
    "(0::real) \<le> 1 / 4" "(1::real) / 4 < 1"
    by simp_all
  have "reachable ?s1" by (rule reachable_user [OF reachable_init m1])
  then have "reachable ?s2" by (rule reachable_ai [OF _ h(1) h(2) h(3) h(4) m2])
  then have "reachable ?s3" by (rule reachable_user [OF _ m3])
  then have "reachable ?s4" by (rule reachable_ai [OF _ h(1) h(2) h(5) h(6) m4])
  then have "reachable ?s5" by (rule reachable_user [OF _ m5])
  then have "reachable ?s6" by (rule reachable_ai [OF _ h(1) h(2) h(3) h(4) m6])
  then have "reachable ?s7" by (rule reachable_user [OF _ m7])
  then have "reachable ?s8" by (rule reachable_ai [OF _ h(1) h(2) h(3) h(4) m8])
  then show "reachable ?s9" by (rule reachable_user [OF _ m9])
qed

text \<open>
  C6. In every state reachable from an initial state by successful user and AI moves,
  \<open>moves\<close> is the number of non-empty cells of the board, it is at most 9, and a state
  with nine moves is not in progress.
\<close>

theorem reachable_moves_count:
  assumes "reachable s"
  shows "moves s = int (nonEmptyCells (board s)) \<and> moves s \<le> 9
         \<and> (moves s = 9 \<longrightarrow> result s \<noteq> IN_PROGRESS)"
proof -
  from reachable_invariant [OF assms]
  have len: "length (board s) = 9" and cnt: "moves s = int (nonEmptyCells (board s))"
    and res: "result s = IN_PROGRESS \<longrightarrow> \<not> list_all (\<lambda>c. c \<noteq> EMPTY) (board s)"
    by simp_all
  have le: "moves s \<le> 9"
    using nonEmptyCells_le [of "board s"] len cnt by simp
  have "moves s = 9 \<longrightarrow> result s \<noteq> IN_PROGRESS"
  proof
    assume "moves s = 9"
    with cnt len have "nonEmptyCells (board s) = length (board s)" by simp
    then have "list_all (\<lambda>c. c \<noteq> EMPTY) (board s)" by (simp add: nonEmptyCells_full)
    with res show "result s \<noteq> IN_PROGRESS" by blast
  qed
  with cnt le show ?thesis by simp
qed

theorem reachable_moves_count_witness:
  "reachable
     \<lparr> board = [MARK_X, MARK_O, MARK_X, MARK_X, MARK_O, MARK_O, MARK_O, MARK_X, MARK_X],
       currentPlayer = USER, moves = 9, difficulty = ''easy'', result = DRAW,
       gs_winner = None, gs_winningLine = None, lastAIMove = Some 6 \<rparr>
   \<and> nonEmptyCells [MARK_X, MARK_O, MARK_X, MARK_X, MARK_O, MARK_O, MARK_O, MARK_X, MARK_X] = 9
   \<and> DRAW \<noteq> IN_PROGRESS"
  using reachable_moves_count [OF drawn_game_reachable] drawn_game_reachable
  by simp

section \<open>The AI always proposes a legal move\<close>

lemma availableMoves_iff:
  "m \<in> set (getAvailableMoves b) \<longleftrightarrow> 0 \<le> m \<and> nat m < length b \<and> b ! nat m = EMPTY"
proof
  assume "m \<in> set (getAvailableMoves b)"
  then show "0 \<le> m \<and> nat m < length b \<and> b ! nat m = EMPTY"
    by (auto simp: getAvailableMoves_def)
next
  assume a: "0 \<le> m \<and> nat m < length b \<and> b ! nat m = EMPTY"
  then have "nat m \<in> set (filter (\<lambda>i. b ! i = EMPTY) [0 ..< length b])" by simp
  then have "int (nat m) \<in> set (getAvailableMoves b)"
    unfolding getAvailableMoves_def by (simp only: set_map image_eqI)
  with a show "m \<in> set (getAvailableMoves b)" by simp
qed

lemma availableMove_valid:
  assumes "m \<in> set (getAvailableMoves b)" "length b \<le> 9"
  shows "isValidMove b m"
  using assms by (auto simp: availableMoves_iff isValidMove_iff)

lemma availableMoves_nonempty:
  assumes "EMPTY \<in> set b"
  shows "getAvailableMoves b \<noteq> []"
proof -
  from assms obtain i where "i < length b" "b ! i = EMPTY"
    by (auto simp: in_set_conv_nth)
  then have "int i \<in> set (getAvailableMoves b)"
    by (simp add: availableMoves_iff)
  then show ?thesis by auto
qed

lemma randomIndex_less:
  assumes "0 \<le> r" "r < 1" "0 < n"
  shows "randomIndex r n < n"
proof -
  from assms have "r * real n < real n" by simp
  then have "\<lfloor>r * real n\<rfloor> < int n" by (simp add: floor_less_iff)
  then show ?thesis
    unfolding randomIndex_def using assms(3) by linarith
qed

lemma moveAt_random:
  assumes "ms \<noteq> []" "0 \<le> r" "r < 1"
  shows "\<exists>m \<in> set ms. moveAt ms (randomIndex r (length ms)) = Some m"
proof -
  from assms have "randomIndex r (length ms) < length ms"
    by (intro randomIndex_less) simp_all
  then show ?thesis by (simp add: moveAt_def)
qed

lemma blockingMove_loop_result:
  assumes "\<forall>m \<in> set ms. isValidMove b m"
  shows "blockingMove_loop b ms = Inr None \<or> (\<exists>m \<in> set ms. blockingMove_loop b ms = Inr (Some m))"
  using assms
proof (induction ms)
  case Nil
  then show ?case by simp
next
  case (Cons m ms)
  then obtain tb where "makeMove b m USER = Inr tb"
    by (auto simp: makeMove_def)
  with Cons show ?case by auto
qed

text \<open>
  On a board of at most nine cells the search raises no error, and the position of the
  object returned by the loop is the position of the running best move or one of the moves
  tried.
\<close>

lemma minimax_no_error:
  shows "length b \<le> 9 \<Longrightarrow> \<exists>R. minimax b depth isMaximizing alpha beta = Inr R"
    and "length b \<le> 9 \<Longrightarrow> set ms \<subseteq> set (getAvailableMoves b) \<Longrightarrow>
         \<exists>R. minimax_loop b depth isMaximizing ms bestMove alpha beta = Inr R
            \<and> (position R = position bestMove \<or> position R \<in> Some ` set ms)"
proof (induction b depth isMaximizing alpha beta and b depth isMaximizing ms bestMove alpha beta
    rule: minimax_minimax_loop.induct)
  case (1 board depth isMaximizing alpha beta)
  show ?case
  proof (cases "checkWinner board")
    case (Some w)
    then show ?thesis by (simp add: minimax.simps)
  next
    case None
    show ?thesis
    proof (cases "isDraw board \<or> depth = 0")
      case True
      with None show ?thesis by (simp add: minimax.simps)
    next
      case False
      from "1.IH" [OF None False "1.prems"] obtain R where
        "minimax_loop board depth isMaximizing (getAvailableMoves board)
           \<lparr> position = (case getAvailableMoves board of [] \<Rightarrow> None | m # _ \<Rightarrow> Some m),
             score = (if isMaximizing then NegInf else PosInf) \<rparr> alpha beta = Inr R"
        by auto
      with None False show ?thesis by (simp add: minimax.simps)
    qed
  qed
next
  case (2 board depth isMaximizing bestMove alpha beta)
  show ?case by simp
next
  case (3 board depth isMaximizing move rest bestMove alpha beta)
  from "3.prems" have mv: "move \<in> set (getAvailableMoves board)"
    and rest: "set rest \<subseteq> set (getAvailableMoves board)"
    by simp_all
  from availableMove_valid [OF mv "3.prems"(1)] obtain newBoard where
    nb: "makeMove board move (if isMaximizing then AI else USER) = Inr newBoard"
    by (auto simp: makeMove_def)
  then have "length newBoard \<le> 9"
    using makeMove_counts [OF nb] "3.prems"(1) by simp
  from "3.IH"(1) [OF nb this] obtain r where
    r: "minimax newBoard (depth - 1) (\<not> isMaximizing) alpha beta = Inr r"
    by blast
  define bestMove' where "bestMove' =
      (if isMaximizing
       then (if score r > score bestMove
             then \<lparr> position = Some move, score = score r \<rparr> else bestMove)
       else (if score r < score bestMove
             then \<lparr> position = Some move, score = score r \<rparr> else bestMove))"
  define alpha' where "alpha' = (if isMaximizing then max alpha (score r) else alpha)"
  define beta' where "beta' = (if isMaximizing then beta else min beta (score r))"
  have bm: "position bestMove' = position bestMove \<or> position bestMove' = Some move"
    by (simp add: bestMove'_def)
  have eq: "minimax_loop board depth isMaximizing (move # rest) bestMove alpha beta =
      (if beta' \<le> alpha' then Inr bestMove'
       else minimax_loop board depth isMaximizing rest bestMove' alpha' beta')"
    by (simp add: nb r Let_def bestMove'_def alpha'_def beta'_def)
  show ?case
  proof (cases "beta' \<le> alpha'")
    case True
    with eq bm show ?thesis by auto
  next
    case False
    from "3.IH"(2) [OF nb r bestMove'_def alpha'_def beta'_def False "3.prems"(1) rest]
    obtain R where "minimax_loop board depth isMaximizing rest bestMove' alpha' beta' = Inr R"
      "position R = position bestMove' \<or> position R \<in> Some ` set rest"
      by blast
    with eq False bm show ?thesis by auto
  qed
qed

lemma minimax_position_available:
  assumes "length b \<le> 9" "checkWinner b = None" "EMPTY \<in> set b" "depth \<noteq> 0"
  shows "\<exists>R p. minimax b depth isMaximizing alpha beta = Inr R \<and> position R = Some p
           \<and> p \<in> set (getAvailableMoves b)"
proof -
  from assms(3) have nd: "\<not> isDraw b"
    by (auto simp: isDraw_def list_all_iff)
  from availableMoves_nonempty [OF assms(3)] obtain m ms where ms: "getAvailableMoves b = m # ms"
    by (cases "getAvailableMoves b") auto
  from minimax_no_error(2) [OF assms(1) subset_refl] obtain R where
    R: "minimax_loop b depth isMaximizing (getAvailableMoves b)
          \<lparr> position = Some m, score = (if isMaximizing then NegInf else PosInf) \<rparr> alpha beta = Inr R"
      "position R = Some m \<or> position R \<in> Some ` set (getAvailableMoves b)"
    by fastforce
  have "minimax b depth isMaximizing alpha beta = Inr R"
    using assms(2) assms(4) nd R(1) by (simp add: minimax.simps ms)
  moreover from R(2) ms obtain p where "position R = Some p" "p \<in> set (getAvailableMoves b)"
    by auto
  ultimately show ?thesis by blast
qed

lemma getEasyAIMove_available:
  assumes "length b \<le> 9" "EMPTY \<in> set b" "0 \<le> r2" "r2 < 1"
  shows "\<exists>p \<in> set (getAvailableMoves b). getEasyAIMove b r1 r2 = Inr (Some p)"
proof -
  have ne: "getAvailableMoves b \<noteq> []" by (rule availableMoves_nonempty [OF assms(2)])
  from moveAt_random [OF ne assms(3) assms(4)] obtain m where
    m: "m \<in> set (getAvailableMoves b)"
      "moveAt (getAvailableMoves b) (randomIndex r2 (length (getAvailableMoves b))) = Some m"
    by blast
  have "\<forall>m \<in> set (getAvailableMoves b). isValidMove b m"
    using availableMove_valid assms(1) by blast
  from blockingMove_loop_result [OF this] m ne show ?thesis
    by (auto simp: getEasyAIMove_def Let_def)
qed

lemma getMediumAIMove_available:
  assumes "length b \<le> 9" "checkWinner b = None" "EMPTY \<in> set b" "0 \<le> r2" "r2 < 1"
  shows "\<exists>p \<in> set (getAvailableMoves b). getMediumAIMove b r1 r2 = Inr (Some p)"
proof -
  have ne: "getAvailableMoves b \<noteq> []" by (rule availableMoves_nonempty [OF assms(3)])
  from moveAt_random [OF ne assms(4) assms(5)] obtain m where
    m: "m \<in> set (getAvailableMoves b)"
      "moveAt (getAvailableMoves b) (randomIndex r2 (length (getAvailableMoves b))) = Some m"
    by blast
  from minimax_position_available [OF assms(1) assms(2) assms(3), of 3 False NegInf PosInf]
  obtain R p where "minimax b 3 False NegInf PosInf = Inr R" "position R = Some p"
    "p \<in> set (getAvailableMoves b)"
    by auto
  with m ne show ?thesis
    by (auto simp: getMediumAIMove_def Let_def)
qed

lemma getHardAIMove_available:
  assumes "length b \<le> 9" "checkWinner b = None" "EMPTY \<in> set b"
  shows "\<exists>p \<in> set (getAvailableMoves b). getHardAIMove b = Inr (Some p)"
proof -
  have ne: "getAvailableMoves b \<noteq> []" by (rule availableMoves_nonempty [OF assms(3)])
  from minimax_position_available [OF assms(1) assms(2) assms(3), of 9 False NegInf PosInf]
  obtain R p where "minimax b 9 False NegInf PosInf = Inr R" "position R = Some p"
    "p \<in> set (getAvailableMoves b)"
    by auto
  with ne show ?thesis
    by (auto simp: getHardAIMove_def Let_def)
qed

text \<open>
  C10. On a board of nine cells with an empty cell and no completed line, for each of the
  three difficulties and for all draws of the random source, \<open>getAIMove\<close> returns a position
  that \<open>isValidMove\<close> accepts; so \<open>processAIMove\<close> on an in-progress state with such a board,
  the AI to move, returns a state and raises no error.
\<close>

theorem getAIMove_valid:
  assumes "length (board s) = 9" "checkWinner (board s) = None" "EMPTY \<in> set (board s)"
    and "difficulty s \<in> {''easy'', ''medium'', ''hard''}"
    and "0 \<le> r1" "r1 < 1" "0 \<le> r2" "r2 < 1"
  shows "(\<exists>p. getAIMove (board s) (difficulty s) r1 r2 = Inr (Some p)
            \<and> isValidMove (board s) p \<and> 0 \<le> p \<and> p \<le> 8 \<and> (board s) ! nat p = EMPTY)
         \<and> (result s = IN_PROGRESS \<and> currentPlayer s = AI \<longrightarrow>
              (\<exists>s'. processAIMove s r1 r2 = Inr s'))"
proof -
  have len: "length (board s) \<le> 9" using assms(1) by simp
  have "\<exists>p \<in> set (getAvailableMoves (board s)).
          getAIMove (board s) (difficulty s) r1 r2 = Inr (Some p)"
  proof -
    consider "difficulty s = ''easy''" | "difficulty s = ''medium''" | "difficulty s = ''hard''"
      using assms(4) by blast
    then show ?thesis
    proof cases
      case 1
      with getEasyAIMove_available [OF len assms(3) assms(7) assms(8), of r1]
      show ?thesis by (simp add: getAIMove_def)
    next
      case 2
      with getMediumAIMove_available [OF len assms(2) assms(3) assms(7) assms(8), of r1]
      show ?thesis by (simp add: getAIMove_def)
    next
      case 3
      with getHardAIMove_available [OF len assms(2) assms(3)]
      show ?thesis by (simp add: getAIMove_def)
    qed
  qed
  then obtain p where p: "p \<in> set (getAvailableMoves (board s))"
    "getAIMove (board s) (difficulty s) r1 r2 = Inr (Some p)"
    by blast
  have v: "isValidMove (board s) p" by (rule availableMove_valid [OF p(1) len])
  then obtain nb where nb: "makeMove (board s) p AI = Inr nb"
    by (auto simp: makeMove_def)
  have "result s = IN_PROGRESS \<and> currentPlayer s = AI \<longrightarrow> (\<exists>s'. processAIMove s r1 r2 = Inr s')"
    by (simp add: processAIMove_def p(2) nb Let_def)
  with p(2) v show ?thesis
    by (auto simp: isValidMove_iff)
qed

theorem getAIMove_valid_witness:
  "getAIMove [MARK_X, MARK_X, MARK_O, MARK_O, MARK_O, MARK_X, MARK_X, EMPTY, EMPTY]
     ''medium'' (1 / 2) (1 / 2) = Inr (Some 7)
   \<and> isValidMove [MARK_X, MARK_X, MARK_O, MARK_O, MARK_O, MARK_X, MARK_X, EMPTY, EMPTY] 7
   \<and> (\<exists>s'. processAIMove
        \<lparr> board = [MARK_X, MARK_X, MARK_O, MARK_O, MARK_O, MARK_X, MARK_X, EMPTY, EMPTY],
          currentPlayer = AI, moves = 7, difficulty = ''medium'', result = IN_PROGRESS,
          gs_winner = None, gs_winningLine = None, lastAIMove = Some 4 \<rparr> (1 / 2) (1 / 2)
        = Inr s')"
proof -
  let ?s = "\<lparr> board = [MARK_X, MARK_X, MARK_O, MARK_O, MARK_O, MARK_X, MARK_X, EMPTY, EMPTY],
          currentPlayer = AI, moves = 7, difficulty = ''medium'', result = IN_PROGRESS,
          gs_winner = None, gs_winningLine = None, lastAIMove = Some 4 \<rparr>"
  have h: "length (board ?s) = 9" "checkWinner (board ?s) = None" "EMPTY \<in> set (board ?s)"
    "difficulty ?s \<in> {''easy'', ''medium'', ''hard''}"
    "(0::real) \<le> 1 / 2" "(1::real) / 2 < 1"
    by (simp_all add: checkWinner_def winningCombinations_def lineMatches_def cellAt_def)
  have g: "getAIMove [MARK_X, MARK_X, MARK_O, MARK_O, MARK_O, MARK_X, MARK_X, EMPTY, EMPTY]
     ''medium'' (1 / 2) (1 / 2) = Inr (Some 7)"
    by code_simp
  from getAIMove_valid [OF h(1) h(2) h(3) h(4) h(5) h(6) h(5) h(6)] g show ?thesis
    by simp
qed

section \<open>Terminal scores of the search\<close>

text \<open>
  Inside a node that is not terminal, the running best score is first an infinity and is
  finite from the first child on.
\<close>

lemma minimax_score_bound:
  shows "0 \<le> depth \<Longrightarrow> minimax b depth isMaximizing alpha beta = Inr R \<Longrightarrow>
         \<exists>n. score R = Fin n \<and> \<bar>n\<bar> \<le> depth + 1"
    and "0 < depth \<Longrightarrow> minimax_loop b depth isMaximizing ms bestMove alpha beta = Inr R \<Longrightarrow>
         (\<exists>n. score bestMove = Fin n \<and> \<bar>n\<bar> \<le> depth + 1)
           \<or> (ms \<noteq> [] \<and> score bestMove = (if isMaximizing then NegInf else PosInf)) \<Longrightarrow>
         \<exists>n. score R = Fin n \<and> \<bar>n\<bar> \<le> depth + 1"
proof (induction b depth isMaximizing alpha beta and b depth isMaximizing ms bestMove alpha beta
    arbitrary: R and R rule: minimax_minimax_loop.induct)
  case (1 board depth isMaximizing alpha beta)
  show ?case
  proof (cases "checkWinner board")
    case (Some w)
    with "1.prems" show ?thesis
      by (auto simp: minimax.simps split: if_splits)
  next
    case None
    show ?thesis
    proof (cases "isDraw board \<or> depth = 0")
      case True
      with None "1.prems" show ?thesis by (auto simp: minimax.simps)
    next
      case False
      have ne: "getAvailableMoves board \<noteq> []"
      proof -
        from False None have "EMPTY \<in> set board" by (auto simp: isDraw_def list_all_iff)
        then show ?thesis by (rule availableMoves_nonempty)
      qed
      from False "1.prems"(1) have pos: "0 < depth" by simp
      from None False "1.prems"(2) have
        "minimax_loop board depth isMaximizing (getAvailableMoves board)
           \<lparr> position = (case getAvailableMoves board of [] \<Rightarrow> None | m # _ \<Rightarrow> Some m),
             score = (if isMaximizing then NegInf else PosInf) \<rparr> alpha beta = Inr R"
        by (simp add: minimax.simps)
      from "1.IH" [OF None False pos this] ne show ?thesis by simp
    qed
  qed
next
  case (2 board depth isMaximizing bestMove alpha beta)
  then show ?case by simp
next
  case (3 board depth isMaximizing move rest bestMove alpha beta)
  from "3.prems"(2) obtain newBoard where
    nb: "makeMove board move (if isMaximizing then AI else USER) = Inr newBoard"
    by (auto split: sum.splits)
  with "3.prems"(2) obtain r where
    r: "minimax newBoard (depth - 1) (\<not> isMaximizing) alpha beta = Inr r"
    by (auto split: sum.splits)
  from "3.prems"(1) have "0 \<le> depth - 1" by simp
  from "3.IH"(1) [OF nb this r] obtain k where k: "score r = Fin k" "\<bar>k\<bar> \<le> depth"
    by auto
  define bestMove' where "bestMove' =
      (if isMaximizing
       then (if score r > score bestMove
             then \<lparr> position = Some move, score = score r \<rparr> else bestMove)
       else (if score r < score bestMove
             then \<lparr> position = Some move, score = score r \<rparr> else bestMove))"
  define alpha' where "alpha' = (if isMaximizing then max alpha (score r) else alpha)"
  define beta' where "beta' = (if isMaximizing then beta else min beta (score r))"
  have fin: "\<exists>n. score bestMove' = Fin n \<and> \<bar>n\<bar> \<le> depth + 1"
  proof (cases "\<exists>n. score bestMove = Fin n \<and> \<bar>n\<bar> \<le> depth + 1")
    case True
    with k show ?thesis by (simp add: bestMove'_def)
  next
    case False
    with "3.prems"(3) have "score bestMove = (if isMaximizing then NegInf else PosInf)"
      by blast
    with k show ?thesis by (simp add: bestMove'_def)
  qed
  have eq: "minimax_loop board depth isMaximizing (move # rest) bestMove alpha beta =
      (if beta' \<le> alpha' then Inr bestMove'
       else minimax_loop board depth isMaximizing rest bestMove' alpha' beta')"
    by (simp add: nb r Let_def bestMove'_def alpha'_def beta'_def)
  show ?case
  proof (cases "beta' \<le> alpha'")
    case True
    with eq "3.prems"(2) fin show ?thesis by simp
  next
    case False
    with eq "3.prems"(2) have
      "minimax_loop board depth isMaximizing rest bestMove' alpha' beta' = Inr R"
      by simp
    from "3.IH"(2) [OF nb r bestMove'_def alpha'_def beta'_def False "3.prems"(1) this] fin
    show ?thesis by blast
  qed
qed

text \<open>
  C3. \<open>minimax\<close> looks at the winner first, whatever the depth, the maximizing flag and the
  window: when \<open>checkWinner\<close> reports the AI the score is \<open>10 - (9 - depth)\<close>, when it
  reports the user the score is \<open>-10 + (9 - depth)\<close>, the negation of the former; with no
  winner the score is 0 when the board is full or the depth is 0. These results carry no
  position. Every score returned from a depth that is not negative is an integer of
  absolute value at most \<open>depth + 1\<close>, so at most 10 from depth 9.
\<close>

theorem minimax_terminal_scores:
  "(\<forall>w. checkWinner b = Some w \<and> winner w = AI \<longrightarrow>
      minimax b depth isMaximizing alpha beta
        = Inr \<lparr> position = None, score = Fin (10 - (9 - depth)) \<rparr>)
   \<and> (\<forall>w. checkWinner b = Some w \<and> winner w = USER \<longrightarrow>
      minimax b depth isMaximizing alpha beta
        = Inr \<lparr> position = None, score = Fin (- 10 + (9 - depth)) \<rparr>
      \<and> - 10 + (9 - depth) = - (10 - (9 - depth)))
   \<and> (checkWinner b = None \<and> (list_all (\<lambda>c. c \<noteq> EMPTY) b \<or> depth = 0) \<longrightarrow>
      minimax b depth isMaximizing alpha beta = Inr \<lparr> position = None, score = Fin 0 \<rparr>)
   \<and> (\<forall>R. 0 \<le> depth \<and> minimax b depth isMaximizing alpha beta = Inr R \<longrightarrow>
      (\<exists>n. score R = Fin n \<and> \<bar>n\<bar> \<le> depth + 1))"
proof (intro conjI allI impI)
  fix w
  assume "checkWinner b = Some w \<and> winner w = AI"
  then show "minimax b depth isMaximizing alpha beta
        = Inr \<lparr> position = None, score = Fin (10 - (9 - depth)) \<rparr>"
    by (simp add: minimax.simps)
next
  fix w
  assume "checkWinner b = Some w \<and> winner w = USER"
  then show "minimax b depth isMaximizing alpha beta
        = Inr \<lparr> position = None, score = Fin (- 10 + (9 - depth)) \<rparr>"
    by (simp add: minimax.simps)
next
  fix w
  show "- 10 + (9 - depth) = - (10 - (9 - depth))" by simp
next
  assume "checkWinner b = None \<and> (list_all (\<lambda>c. c \<noteq> EMPTY) b \<or> depth = 0)"
  then show "minimax b depth isMaximizing alpha beta = Inr \<lparr> position = None, score = Fin 0 \<rparr>"
    by (auto simp: minimax.simps isDraw_def)
next
  fix R
  assume "0 \<le> depth \<and> minimax b depth isMaximizing alpha beta = Inr R"
  then show "\<exists>n. score R = Fin n \<and> \<bar>n\<bar> \<le> depth + 1"
    using minimax_score_bound(1) by blast
qed

theorem minimax_terminal_scores_witness:
  "minimax [MARK_O, MARK_O, MARK_O, MARK_X, MARK_X, EMPTY, EMPTY, MARK_X, EMPTY] 4 False NegInf PosInf
     = Inr \<lparr> position = None, score = Fin 5 \<rparr>
   \<and> minimax [MARK_X, MARK_X, MARK_X, MARK_O, MARK_O, EMPTY, EMPTY, EMPTY, EMPTY] 4 True NegInf PosInf
     = Inr \<lparr> position = None, score = Fin (- 5) \<rparr>
   \<and> minimax [MARK_X, MARK_O, MARK_X, MARK_X, MARK_O, MARK_O, MARK_O, MARK_X, MARK_X] 4 True NegInf PosInf
     = Inr \<lparr> position = None, score = Fin 0 \<rparr>
   \<and> minimax [MARK_X, MARK_O, EMPTY, EMPTY, EMPTY, EMPTY, EMPTY, EMPTY, EMPTY] 0 True NegInf PosInf
     = Inr \<lparr> position = None, score = Fin 0 \<rparr>
   \<and> (\<exists>n. score \<lparr> position = None, score = Fin 5 \<rparr> = Fin n \<and> \<bar>n\<bar> \<le> 4 + 1)"
proof -
  have c: "checkWinner [MARK_O, MARK_O, MARK_O, MARK_X, MARK_X, EMPTY, EMPTY, MARK_X, EMPTY]
             = Some \<lparr> winner = AI, winningLine = (0, 1, 2) \<rparr>"
    "checkWinner [MARK_X, MARK_X, MARK_X, MARK_O, MARK_O, EMPTY, EMPTY, EMPTY, EMPTY]
             = Some \<lparr> winner = USER, winningLine = (0, 1, 2) \<rparr>"
    "checkWinner [MARK_X, MARK_O, MARK_X, MARK_X, MARK_O, MARK_O, MARK_O, MARK_X, MARK_X] = None"
    "checkWinner [MARK_X, MARK_O, EMPTY, EMPTY, EMPTY, EMPTY, EMPTY, EMPTY, EMPTY] = None"
    by (simp_all add: checkWinner_def winningCombinations_def lineMatches_def cellAt_def)
  show ?thesis
    using minimax_terminal_scores
        [of "[MARK_O, MARK_O, MARK_O, MARK_X, MARK_X, EMPTY, EMPTY, MARK_X, EMPTY]" 4 False NegInf PosInf]
      minimax_terminal_scores
        [of "[MARK_X, MARK_X, MARK_X, MARK_O, MARK_O, EMPTY, EMPTY, EMPTY, EMPTY]" 4 True NegInf PosInf]
      minimax_terminal_scores
        [of "[MARK_X, MARK_O, MARK_X, MARK_X, MARK_O, MARK_O, MARK_O, MARK_X, MARK_X]" 4 True NegInf PosInf]
      minimax_terminal_scores
        [of "[MARK_X, MARK_O, EMPTY, EMPTY, EMPTY, EMPTY, EMPTY, EMPTY, EMPTY]" 0 True NegInf PosInf]
    by (simp add: c)
qed

section \<open>The hard tier against the specified search\<close>

text \<open>
  C1 asks for the move of a full-depth search with the AI maximizing at the top ply.
  \<open>getHardAIMove\<close> calls \<open>minimax\<close> with the maximizing flag false, so the top ply places
  the user's mark and keeps the lowest score. After the legal game 3, 0, 4, 1, 8 (the user
  first) the AI can complete the top row at position 2, which is the move of the specified
  search, with score 9; the code returns position 5, the square the user would take.
\<close>

theorem getHardAIMove_differs_from_specHardMove:
  "playFrom (replicate 9 EMPTY) USER [3, 0, 4, 1, 8]
     = Some [MARK_O, MARK_O, EMPTY, MARK_X, MARK_X, EMPTY, EMPTY, EMPTY, MARK_X]
   \<and> getHardAIMove [MARK_O, MARK_O, EMPTY, MARK_X, MARK_X, EMPTY, EMPTY, EMPTY, MARK_X]
       = Inr (Some 5)
   \<and> minimax [MARK_O, MARK_O, EMPTY, MARK_X, MARK_X, EMPTY, EMPTY, EMPTY, MARK_X] 9 False NegInf PosInf
       = Inr \<lparr> position = Some 5, score = Fin (- 9) \<rparr>
   \<and> specHardMove [MARK_O, MARK_O, EMPTY, MARK_X, MARK_X, EMPTY, EMPTY, EMPTY, MARK_X] = Some 2
   \<and> map (candidateScore [MARK_O, MARK_O, EMPTY, MARK_X, MARK_X, EMPTY, EMPTY, EMPTY, MARK_X] 9 True)
         (getAvailableMoves [MARK_O, MARK_O, EMPTY, MARK_X, MARK_X, EMPTY, EMPTY, EMPTY, MARK_X])
       = [9, 0, - 8, - 8]"
  by code_simp

text \<open>
  C2 asks that the hard tier never picks a move after which the user can force a win, when
  another move avoids that. After the legal game 0, 2, 1, 5, 3, 6, 4 the AI wins at once
  at position 8; the code returns position 7, after which the user wins at position 8, as
  the two calls of the orchestrator at the end show.
\<close>

theorem getHardAIMove_picks_losing_move:
  "playFrom (replicate 9 EMPTY) USER [0, 2, 1, 5, 3, 6, 4]
     = Some [MARK_X, MARK_X, MARK_O, MARK_X, MARK_X, MARK_O, MARK_O, EMPTY, EMPTY]
   \<and> getGameResult [MARK_X, MARK_X, MARK_O, MARK_X, MARK_X, MARK_O, MARK_O, EMPTY, EMPTY]
       = IN_PROGRESS
   \<and> getHardAIMove [MARK_X, MARK_X, MARK_O, MARK_X, MARK_X, MARK_O, MARK_O, EMPTY, EMPTY]
       = Inr (Some 7)
   \<and> makeMove [MARK_X, MARK_X, MARK_O, MARK_X, MARK_X, MARK_O, MARK_O, EMPTY, EMPTY] 7 AI
       = Inr [MARK_X, MARK_X, MARK_O, MARK_X, MARK_X, MARK_O, MARK_O, MARK_O, EMPTY]
   \<and> userCanForceWin [MARK_X, MARK_X, MARK_O, MARK_X, MARK_X, MARK_O, MARK_O, MARK_O, EMPTY] True
   \<and> makeMove [MARK_X, MARK_X, MARK_O, MARK_X, MARK_X, MARK_O, MARK_O, EMPTY, EMPTY] 8 AI
       = Inr [MARK_X, MARK_X, MARK_O, MARK_X, MARK_X, MARK_O, MARK_O, EMPTY, MARK_O]
   \<and> \<not> userCanForceWin [MARK_X, MARK_X, MARK_O, MARK_X, MARK_X, MARK_O, MARK_O, EMPTY, MARK_O] True
   \<and> getGameResult [MARK_X, MARK_X, MARK_O, MARK_X, MARK_X, MARK_O, MARK_O, EMPTY, MARK_O]
       = AI_WIN
   \<and> processAIMove
       \<lparr> board = [MARK_X, MARK_X, MARK_O, MARK_X, MARK_X, MARK_O, MARK_O, EMPTY, EMPTY],
         currentPlayer = AI, moves = 7, difficulty = ''hard'', result = IN_PROGRESS,
         gs_winner = None, gs_winningLine = None, lastAIMove = Some 6 \<rparr> 0 0
     = Inr \<lparr> board = [MARK_X, MARK_X, MARK_O, MARK_X, MARK_X, MARK_O, MARK_O, MARK_O, EMPTY],
             currentPlayer = USER, moves = 8, difficulty = ''hard'', result = IN_PROGRESS,
             gs_winner = None, gs_winningLine = None, lastAIMove = Some 7 \<rparr>
   \<and> processUserMove
       \<lparr> board = [MARK_X, MARK_X, MARK_O, MARK_X, MARK_X, MARK_O, MARK_O, MARK_O, EMPTY],
         currentPlayer = USER, moves = 8, difficulty = ''hard'', result = IN_PROGRESS,
         gs_winner = None, gs_winningLine = None, lastAIMove = Some 7 \<rparr> 8
     = Inr \<lparr> board = [MARK_X, MARK_X, MARK_O, MARK_X, MARK_X, MARK_O, MARK_O, MARK_O, MARK_X],
             currentPlayer = USER, moves = 9, difficulty = ''hard'', result = USER_WIN,
             gs_winner = Some USER, gs_winningLine = Some (0, 4, 8), lastAIMove = Some 7 \<rparr>"
  by code_simp

section \<open>Pruning does not change the result of the search\<close>

lemma windowApprox_exact: "windowApprox alpha beta v v"
  by (simp add: windowApprox_def)

lemma maxLoopPost_empty: "maxLoopPost alpha beta sb {} sb \<longleftrightarrow> \<not> beta \<le> sb \<and> \<not> (alpha < sb \<and> sb < beta)"
  by (auto simp: maxLoopPost_def)

lemma maxLoopPost_break:
  assumes "alpha < beta" "sb \<le> alpha" "windowApprox alpha beta v sr" "beta \<le> max alpha sr"
  shows "maxLoopPost alpha beta sb (insert v S) (max sb sr)"
  using assms unfolding maxLoopPost_def windowApprox_def
  by (auto simp: max_def split: if_splits)

lemma maxLoopPost_continue:
  assumes "alpha < beta" "sb \<le> alpha" "windowApprox alpha beta v sr" "\<not> beta \<le> max alpha sr"
    and "maxLoopPost (max alpha sr) beta (max sb sr) S r"
  shows "maxLoopPost alpha beta sb (insert v S) r"
  using assms unfolding maxLoopPost_def windowApprox_def
  by (auto simp: max_def split: if_splits)

lemma minLoopPost_empty: "minLoopPost alpha beta sb {} sb \<longleftrightarrow> \<not> sb \<le> alpha \<and> \<not> (alpha < sb \<and> sb < beta)"
  by (auto simp: minLoopPost_def)

lemma minLoopPost_break:
  assumes "alpha < beta" "beta \<le> sb" "windowApprox alpha beta v sr" "min beta sr \<le> alpha"
  shows "minLoopPost alpha beta sb (insert v S) (min sb sr)"
  using assms unfolding minLoopPost_def windowApprox_def
  by (auto simp: min_def split: if_splits)

lemma minLoopPost_continue:
  assumes "alpha < beta" "beta \<le> sb" "windowApprox alpha beta v sr" "\<not> min beta sr \<le> alpha"
    and "minLoopPost alpha (min beta sr) (min sb sr) S r"
  shows "minLoopPost alpha beta sb (insert v S) r"
  using assms unfolding minLoopPost_def windowApprox_def
  by (auto simp: min_def split: if_splits)

lemma maxLoopPost_node:
  assumes "maxLoopPost alpha beta NegInf (Fin ` T) r" "finite T" "T \<noteq> {}"
  shows "windowApprox alpha beta (Fin (Max T)) r"
proof -
  have m: "Max T \<in> T" "\<forall>t \<in> T. t \<le> Max T"
    using assms(2) assms(3) by simp_all
  have a: "Fin (Max T) \<le> r" if "r \<le> alpha"
    using assms(1) m(1) that by (simp add: maxLoopPost_def)
  have b: "r \<le> Fin (Max T)" if "beta \<le> r"
  proof -
    from assms(1) that obtain t where "t \<in> T" "r \<le> Fin t"
      by (auto simp: maxLoopPost_def)
    moreover from this m(2) have "Fin t \<le> Fin (Max T)" by simp
    ultimately show ?thesis by (meson order_trans)
  qed
  have c: "r = Fin (Max T)" if "alpha < r \<and> r < beta"
  proof -
    from assms(1) that obtain t where t: "t \<in> T" "r = Fin t" "\<forall>u \<in> T. Fin u \<le> r"
      by (auto simp: maxLoopPost_def)
    from t(2) t(3) m(1) have "Max T \<le> t" by simp
    with m(2) t(1) have "Max T = t" by (simp add: order_antisym)
    with t(2) show ?thesis by simp
  qed
  from a b c show ?thesis by (simp add: windowApprox_def)
qed

lemma minLoopPost_node:
  assumes "minLoopPost alpha beta PosInf (Fin ` T) r" "finite T" "T \<noteq> {}"
  shows "windowApprox alpha beta (Fin (Min T)) r"
proof -
  have m: "Min T \<in> T" "\<forall>t \<in> T. Min T \<le> t"
    using assms(2) assms(3) by simp_all
  have a: "r \<le> Fin (Min T)" if "beta \<le> r"
    using assms(1) m(1) that by (simp add: minLoopPost_def)
  have b: "Fin (Min T) \<le> r" if "r \<le> alpha"
  proof -
    from assms(1) that obtain t where "t \<in> T" "Fin t \<le> r"
      by (auto simp: minLoopPost_def)
    moreover from this m(2) have "Fin (Min T) \<le> Fin t" by simp
    ultimately show ?thesis by (meson order_trans)
  qed
  have c: "r = Fin (Min T)" if "alpha < r \<and> r < beta"
  proof -
    from assms(1) that obtain t where t: "t \<in> T" "r = Fin t" "\<forall>u \<in> T. r \<le> Fin u"
      by (auto simp: minLoopPost_def)
    from t(2) t(3) m(1) have "t \<le> Min T" by simp
    with m(2) t(1) have "Min T = t" by (simp add: order_antisym)
    with t(2) show ?thesis by simp
  qed
  from a b c show ?thesis by (simp add: windowApprox_def)
qed

lemma plainMinimax_inner:
  assumes "checkWinner b = None" "\<not> (isDraw b \<or> depth = 0)"
  shows "plainMinimax b depth isMaximizing =
     (if isMaximizing then Max (candidateScore b depth True ` set (getAvailableMoves b))
      else Min (candidateScore b depth False ` set (getAvailableMoves b)))"
proof -
  have "candidateScore b depth isMaximizing =
      (\<lambda>m. plainMinimax (b[nat m := (if isMaximizing then MARK_O else MARK_X)]) (depth - 1)
              (\<not> isMaximizing))"
    by (rule ext) (simp add: candidateScore_def)
  then show ?thesis
    using assms by (auto simp: plainMinimax.simps [of b] Let_def)
qed

lemma makeMove_candidateScore:
  assumes "makeMove b m (if isMaximizing then AI else USER) = Inr nb"
  shows "plainMinimax nb (depth - 1) (\<not> isMaximizing) = candidateScore b depth isMaximizing m"
  using assms by (auto simp: makeMove_Inr_iff candidateScore_def)

text \<open>
  The score that \<open>minimax\<close> returns for a window approximates the plain minimax value of
  the board; in particular it is that value when it lies inside the window.
\<close>

lemma minimax_windowApprox:
  shows "alpha < beta \<Longrightarrow> minimax b depth isMaximizing alpha beta = Inr R \<Longrightarrow>
         windowApprox alpha beta (Fin (plainMinimax b depth isMaximizing)) (score R)"
    and "alpha < beta \<Longrightarrow> minimax_loop b depth isMaximizing ms bestMove alpha beta = Inr R \<Longrightarrow>
         (isMaximizing \<longrightarrow> score bestMove \<le> alpha \<longrightarrow>
            maxLoopPost alpha beta (score bestMove)
              ((\<lambda>m. Fin (candidateScore b depth True m)) ` set ms) (score R))
         \<and> (\<not> isMaximizing \<longrightarrow> beta \<le> score bestMove \<longrightarrow>
            minLoopPost alpha beta (score bestMove)
              ((\<lambda>m. Fin (candidateScore b depth False m)) ` set ms) (score R))"
proof (induction b depth isMaximizing alpha beta and b depth isMaximizing ms bestMove alpha beta
    arbitrary: R and R rule: minimax_minimax_loop.induct)
  case (1 board depth isMaximizing alpha beta)
  show ?case
  proof (cases "checkWinner board")
    case (Some w)
    with "1.prems"(2) have "score R = Fin (plainMinimax board depth isMaximizing)"
      by (auto simp: minimax.simps plainMinimax.simps [of board] split: if_splits)
    then show ?thesis by (simp add: windowApprox_exact)
  next
    case None
    show ?thesis
    proof (cases "isDraw board \<or> depth = 0")
      case True
      with None "1.prems"(2) have "score R = Fin (plainMinimax board depth isMaximizing)"
        by (auto simp: minimax.simps plainMinimax.simps [of board])
      then show ?thesis by (simp add: windowApprox_exact)
    next
      case False
      have ne: "getAvailableMoves board \<noteq> []"
      proof -
        from False None have "EMPTY \<in> set board" by (auto simp: isDraw_def list_all_iff)
        then show ?thesis by (rule availableMoves_nonempty)
      qed
      let ?best = "\<lparr> position = (case getAvailableMoves board of [] \<Rightarrow> None | m # _ \<Rightarrow> Some m),
             score = (if isMaximizing then NegInf else PosInf) \<rparr>"
      from None False "1.prems"(2) have loop:
        "minimax_loop board depth isMaximizing (getAvailableMoves board) ?best alpha beta = Inr R"
        by (simp add: minimax.simps)
      note IH = "1.IH" [OF None False "1.prems"(1) loop]
      show ?thesis
      proof (cases isMaximizing)
        case True
        with IH have "maxLoopPost alpha beta NegInf
            (Fin ` candidateScore board depth True ` set (getAvailableMoves board)) (score R)"
          by (simp add: image_image)
        from maxLoopPost_node [OF this] ne True show ?thesis
          by (simp add: plainMinimax_inner [OF None False])
      next
        case False
        with IH have "minLoopPost alpha beta PosInf
            (Fin ` candidateScore board depth False ` set (getAvailableMoves board)) (score R)"
          by (simp add: image_image)
        from minLoopPost_node [OF this] ne False show ?thesis
          by (simp add: plainMinimax_inner [OF None \<open>\<not> (isDraw board \<or> depth = 0)\<close>])
      qed
    qed
  qed
next
  case (2 board depth isMaximizing bestMove alpha beta)
  then show ?case
    by (auto simp: maxLoopPost_empty minLoopPost_empty)
next
  case (3 board depth isMaximizing move rest bestMove alpha beta)
  from "3.prems"(2) obtain newBoard where
    nb: "makeMove board move (if isMaximizing then AI else USER) = Inr newBoard"
    by (auto split: sum.splits)
  with "3.prems"(2) obtain r where
    r: "minimax newBoard (depth - 1) (\<not> isMaximizing) alpha beta = Inr r"
    by (auto split: sum.splits)
  have child: "windowApprox alpha beta (Fin (candidateScore board depth isMaximizing move)) (score r)"
    using "3.IH"(1) [OF nb "3.prems"(1) r] by (simp add: makeMove_candidateScore [OF nb])
  define bestMove' where "bestMove' =
      (if isMaximizing
       then (if score r > score bestMove
             then \<lparr> position = Some move, score = score r \<rparr> else bestMove)
       else (if score r < score bestMove
             then \<lparr> position = Some move, score = score r \<rparr> else bestMove))"
  define alpha' where "alpha' = (if isMaximizing then max alpha (score r) else alpha)"
  define beta' where "beta' = (if isMaximizing then beta else min beta (score r))"
  have sb': "score bestMove' =
      (if isMaximizing then max (score bestMove) (score r) else min (score bestMove) (score r))"
    by (auto simp: bestMove'_def max_def min_def)
  have eq: "minimax_loop board depth isMaximizing (move # rest) bestMove alpha beta =
      (if beta' \<le> alpha' then Inr bestMove'
       else minimax_loop board depth isMaximizing rest bestMove' alpha' beta')"
    by (simp add: nb r Let_def bestMove'_def alpha'_def beta'_def)
  let ?S = "\<lambda>i. (\<lambda>m. Fin (candidateScore board depth i m)) ` set rest"
  show ?case
  proof (cases "beta' \<le> alpha'")
    case True
    with eq "3.prems"(2) have R: "R = bestMove'" by simp
    have "maxLoopPost alpha beta (score bestMove)
            (insert (Fin (candidateScore board depth True move)) (?S True)) (score R)"
      if "isMaximizing" "score bestMove \<le> alpha"
      using maxLoopPost_break [OF "3.prems"(1) that(2), of "Fin (candidateScore board depth True move)"
          "score r" "?S True"] child True that(1)
      by (simp add: R sb' alpha'_def beta'_def)
    moreover have "minLoopPost alpha beta (score bestMove)
            (insert (Fin (candidateScore board depth False move)) (?S False)) (score R)"
      if "\<not> isMaximizing" "beta \<le> score bestMove"
      using minLoopPost_break [OF "3.prems"(1) that(2), of "Fin (candidateScore board depth False move)"
          "score r" "?S False"] child True that(1)
      by (simp add: R sb' alpha'_def beta'_def)
    ultimately show ?thesis by simp
  next
    case False
    with eq "3.prems"(2) have loop:
      "minimax_loop board depth isMaximizing rest bestMove' alpha' beta' = Inr R"
      by simp
    from False have w: "alpha' < beta'" by simp
    note IH = "3.IH"(2) [OF nb r bestMove'_def alpha'_def beta'_def False w loop]
    have "maxLoopPost alpha beta (score bestMove)
            (insert (Fin (candidateScore board depth True move)) (?S True)) (score R)"
      if "isMaximizing" "score bestMove \<le> alpha"
    proof -
      from that have "score bestMove' \<le> alpha'"
        by (auto simp: sb' alpha'_def max_def)
      with IH that(1) have "maxLoopPost (max alpha (score r)) beta
          (max (score bestMove) (score r)) (?S True) (score R)"
        by (simp add: sb' alpha'_def beta'_def)
      from maxLoopPost_continue [OF "3.prems"(1) that(2) _ _ this,
          of "Fin (candidateScore board depth True move)"] child False that(1)
      show ?thesis by (simp add: alpha'_def beta'_def)
    qed
    moreover have "minLoopPost alpha beta (score bestMove)
            (insert (Fin (candidateScore board depth False move)) (?S False)) (score R)"
      if "\<not> isMaximizing" "beta \<le> score bestMove"
    proof -
      from that have "beta' \<le> score bestMove'"
        by (auto simp: sb' beta'_def min_def)
      with IH that(1) have "minLoopPost alpha (min beta (score r))
          (min (score bestMove) (score r)) (?S False) (score R)"
        by (simp add: sb' alpha'_def beta'_def)
      from minLoopPost_continue [OF "3.prems"(1) that(2) _ _ this,
          of "Fin (candidateScore board depth False move)"] child False that(1)
      show ?thesis by (simp add: alpha'_def beta'_def)
    qed
    ultimately show ?thesis by simp
  qed
qed

subsection \<open>The top ply\<close>

text \<open>
  With the full window the loop of the top ply never prunes, and its window bound on the
  side of the mover is the running best score. One step of the loop is then one step of the
  scan without pruning.
\<close>

lemma topWindow_less: "topWindow isMaximizing bestMove alpha beta \<Longrightarrow> alpha < beta"
  by (auto simp: topWindow_def split: if_splits)

lemma top_loop_step:
  assumes loop: "minimax_loop b depth isMaximizing (m # rest) bestMove alpha beta = Inr R"
    and top: "topWindow isMaximizing bestMove alpha beta"
  shows "\<exists>alpha' beta'.
           minimax_loop b depth isMaximizing rest
             (keepBetter isMaximizing (candidateScore b depth isMaximizing) m bestMove)
             alpha' beta' = Inr R
           \<and> topWindow isMaximizing
               (keepBetter isMaximizing (candidateScore b depth isMaximizing) m bestMove)
               alpha' beta'"
proof -
  let ?v = "Fin (candidateScore b depth isMaximizing m)"
  from loop obtain newBoard where
    nb: "makeMove b m (if isMaximizing then AI else USER) = Inr newBoard"
    by (auto split: sum.splits)
  with loop obtain r where
    r: "minimax newBoard (depth - 1) (\<not> isMaximizing) alpha beta = Inr r"
    by (auto split: sum.splits)
  have child: "windowApprox alpha beta ?v (score r)"
    using minimax_windowApprox(1) [OF topWindow_less [OF top] r]
    by (simp add: makeMove_candidateScore [OF nb])
  define bestMove' where "bestMove' =
      (if isMaximizing
       then (if score r > score bestMove
             then \<lparr> position = Some m, score = score r \<rparr> else bestMove)
       else (if score r < score bestMove
             then \<lparr> position = Some m, score = score r \<rparr> else bestMove))"
  define alpha' where "alpha' = (if isMaximizing then max alpha (score r) else alpha)"
  define beta' where "beta' = (if isMaximizing then beta else min beta (score r))"
  have eq: "minimax_loop b depth isMaximizing (m # rest) bestMove alpha beta =
      (if beta' \<le> alpha' then Inr bestMove'
       else minimax_loop b depth isMaximizing rest bestMove' alpha' beta')"
    by (simp add: nb r Let_def bestMove'_def alpha'_def beta'_def)
  have keep: "bestMove' = keepBetter isMaximizing (candidateScore b depth isMaximizing) m bestMove"
    and top': "topWindow isMaximizing bestMove' alpha' beta'"
  proof -
    show "bestMove' = keepBetter isMaximizing (candidateScore b depth isMaximizing) m bestMove"
    proof (cases isMaximizing)
      case True
      with top have w: "beta = PosInf" "alpha = score bestMove" "alpha < PosInf"
        by (auto simp: topWindow_def)
      from child w have fin: "score r < PosInf"
        by (cases "score r") (auto simp: windowApprox_def)
      show ?thesis
      proof (cases "score bestMove < score r")
        case True
        with child w fin have "score r = ?v" by (simp add: windowApprox_def)
        with True \<open>isMaximizing\<close> show ?thesis by (simp add: bestMove'_def keepBetter_def)
      next
        case False
        with child w have "?v \<le> score r" by (simp add: windowApprox_def)
        with False have "\<not> score bestMove < ?v" by (meson leD leI order_trans)
        with False \<open>isMaximizing\<close> show ?thesis by (simp add: bestMove'_def keepBetter_def)
      qed
    next
      case False
      with top have w: "alpha = NegInf" "beta = score bestMove" "NegInf < beta"
        by (auto simp: topWindow_def)
      from child w have fin: "NegInf < score r"
        by (cases "score r") (auto simp: windowApprox_def)
      show ?thesis
      proof (cases "score r < score bestMove")
        case True
        with child w fin have "score r = ?v" by (simp add: windowApprox_def)
        with True \<open>\<not> isMaximizing\<close> show ?thesis by (simp add: bestMove'_def keepBetter_def)
      next
        case nless: False
        with child w have "score r \<le> ?v" by (simp add: windowApprox_def)
        with nless have "\<not> ?v < score bestMove" by (meson leD leI order_trans)
        with nless \<open>\<not> isMaximizing\<close> show ?thesis by (simp add: bestMove'_def keepBetter_def)
      qed
    qed
    show "topWindow isMaximizing bestMove' alpha' beta'"
    proof (cases isMaximizing)
      case True
      with top have w: "beta = PosInf" "alpha = score bestMove" "alpha < PosInf"
        by (auto simp: topWindow_def)
      from child w have fin: "score r < PosInf"
        by (cases "score r") (auto simp: windowApprox_def)
      with True w show ?thesis
        by (auto simp: topWindow_def bestMove'_def alpha'_def beta'_def max_def)
    next
      case False
      with top have w: "alpha = NegInf" "beta = score bestMove" "NegInf < beta"
        by (auto simp: topWindow_def)
      from child w have fin: "NegInf < score r"
        by (cases "score r") (auto simp: windowApprox_def)
      with False w show ?thesis
        by (auto simp: topWindow_def bestMove'_def alpha'_def beta'_def min_def)
    qed
  qed
  from topWindow_less [OF top'] have "\<not> beta' \<le> alpha'" by simp
  with eq loop have "minimax_loop b depth isMaximizing rest bestMove' alpha' beta' = Inr R"
    by simp
  with keep top' show ?thesis by auto
qed

lemma top_loop_scan:
  assumes "minimax_loop b depth isMaximizing ms bestMove alpha beta = Inr R"
    and "topWindow isMaximizing bestMove alpha beta"
  shows "R = fold (keepBetter isMaximizing (candidateScore b depth isMaximizing)) ms bestMove"
  using assms
proof (induction ms arbitrary: bestMove alpha beta)
  case Nil
  then show ?case by simp
next
  case (Cons m ms)
  from top_loop_step [OF Cons.prems] obtain alpha' beta' where
    "minimax_loop b depth isMaximizing ms
       (keepBetter isMaximizing (candidateScore b depth isMaximizing) m bestMove)
       alpha' beta' = Inr R"
    "topWindow isMaximizing
       (keepBetter isMaximizing (candidateScore b depth isMaximizing) m bestMove) alpha' beta'"
    by blast
  from Cons.IH [OF this] show ?case by simp
qed

text \<open>
  The scan returns the running best move unchanged when no move is strictly better, and
  otherwise the first of the moves with the best score: the moves before it are strictly
  worse, the moves after it are not better.
\<close>

lemma scan_min_first:
  "(fold (keepBetter False f) ms acc = acc \<and> (\<forall>m \<in> set ms. score acc \<le> Fin (f m)))
   \<or> (\<exists>pre p post. ms = pre @ p # post
         \<and> fold (keepBetter False f) ms acc = \<lparr> position = Some p, score = Fin (f p) \<rparr>
         \<and> Fin (f p) < score acc
         \<and> (\<forall>m \<in> set pre. f p < f m) \<and> (\<forall>m \<in> set post. f p \<le> f m))"
proof (induction ms arbitrary: acc)
  case Nil
  show ?case by simp
next
  case (Cons m ms)
  let ?acc = "keepBetter False f m acc"
  from Cons.IH [of ?acc] show ?case
  proof (elim disjE exE conjE)
    assume same: "fold (keepBetter False f) ms ?acc = ?acc"
      and rest: "\<forall>m \<in> set ms. score ?acc \<le> Fin (f m)"
    show ?thesis
    proof (cases "Fin (f m) < score acc")
      case True
      then have a: "?acc = \<lparr> position = Some m, score = Fin (f m) \<rparr>"
        by (simp add: keepBetter_def)
      with rest have "\<forall>m' \<in> set ms. f m \<le> f m'" by simp
      with same a True have "m # ms = [] @ m # ms
         \<and> fold (keepBetter False f) (m # ms) acc = \<lparr> position = Some m, score = Fin (f m) \<rparr>
         \<and> Fin (f m) < score acc
         \<and> (\<forall>m' \<in> set []. f m < f m') \<and> (\<forall>m' \<in> set ms. f m \<le> f m')"
        by simp
      then show ?thesis by blast
    next
      case False
      then have "?acc = acc" by (simp add: keepBetter_def)
      with same rest False show ?thesis by auto
    qed
  next
    fix pre p post
    assume split: "ms = pre @ p # post"
      and res: "fold (keepBetter False f) ms ?acc = \<lparr> position = Some p, score = Fin (f p) \<rparr>"
      and less: "Fin (f p) < score ?acc"
      and pre: "\<forall>m \<in> set pre. f p < f m" and post: "\<forall>m \<in> set post. f p \<le> f m"
    have "Fin (f p) < score acc \<and> f p < f m"
    proof (cases "Fin (f m) < score acc")
      case True
      with less have "Fin (f p) < Fin (f m)" by (simp add: keepBetter_def)
      with True have "Fin (f p) < score acc" by (meson less_trans)
      with \<open>Fin (f p) < Fin (f m)\<close> show ?thesis by simp
    next
      case False
      then have "score acc \<le> Fin (f m)" by simp
      moreover from False less have l: "Fin (f p) < score acc" by (simp add: keepBetter_def)
      ultimately have "Fin (f p) < Fin (f m)" by (meson less_le_trans)
      with l show ?thesis by simp
    qed
    with split res pre post have "m # ms = (m # pre) @ p # post
         \<and> fold (keepBetter False f) (m # ms) acc = \<lparr> position = Some p, score = Fin (f p) \<rparr>
         \<and> Fin (f p) < score acc
         \<and> (\<forall>m' \<in> set (m # pre). f p < f m') \<and> (\<forall>m' \<in> set post. f p \<le> f m')"
      by simp
    then show ?thesis by blast
  qed
qed

lemma scan_max_first:
  "(fold (keepBetter True f) ms acc = acc \<and> (\<forall>m \<in> set ms. Fin (f m) \<le> score acc))
   \<or> (\<exists>pre p post. ms = pre @ p # post
         \<and> fold (keepBetter True f) ms acc = \<lparr> position = Some p, score = Fin (f p) \<rparr>
         \<and> score acc < Fin (f p)
         \<and> (\<forall>m \<in> set pre. f m < f p) \<and> (\<forall>m \<in> set post. f m \<le> f p))"
proof (induction ms arbitrary: acc)
  case Nil
  show ?case by simp
next
  case (Cons m ms)
  let ?acc = "keepBetter True f m acc"
  from Cons.IH [of ?acc] show ?case
  proof (elim disjE exE conjE)
    assume same: "fold (keepBetter True f) ms ?acc = ?acc"
      and rest: "\<forall>m \<in> set ms. Fin (f m) \<le> score ?acc"
    show ?thesis
    proof (cases "score acc < Fin (f m)")
      case True
      then have a: "?acc = \<lparr> position = Some m, score = Fin (f m) \<rparr>"
        by (simp add: keepBetter_def)
      with rest have "\<forall>m' \<in> set ms. f m' \<le> f m" by simp
      with same a True have "m # ms = [] @ m # ms
         \<and> fold (keepBetter True f) (m # ms) acc = \<lparr> position = Some m, score = Fin (f m) \<rparr>
         \<and> score acc < Fin (f m)
         \<and> (\<forall>m' \<in> set []. f m' < f m) \<and> (\<forall>m' \<in> set ms. f m' \<le> f m)"
        by simp
      then show ?thesis by blast
    next
      case False
      then have "?acc = acc" by (simp add: keepBetter_def)
      with same rest False show ?thesis by auto
    qed
  next
    fix pre p post
    assume split: "ms = pre @ p # post"
      and res: "fold (keepBetter True f) ms ?acc = \<lparr> position = Some p, score = Fin (f p) \<rparr>"
      and less: "score ?acc < Fin (f p)"
      and pre: "\<forall>m \<in> set pre. f m < f p" and post: "\<forall>m \<in> set post. f m \<le> f p"
    have "score acc < Fin (f p) \<and> f m < f p"
    proof (cases "score acc < Fin (f m)")
      case True
      with less have "Fin (f m) < Fin (f p)" by (simp add: keepBetter_def)
      with True have "score acc < Fin (f p)" by (meson less_trans)
      with \<open>Fin (f m) < Fin (f p)\<close> show ?thesis by simp
    next
      case False
      then have "Fin (f m) \<le> score acc" by simp
      moreover from False less have l: "score acc < Fin (f p)" by (simp add: keepBetter_def)
      ultimately have "Fin (f m) < Fin (f p)" by (meson le_less_trans)
      with l show ?thesis by simp
    qed
    with split res pre post have "m # ms = (m # pre) @ p # post
         \<and> fold (keepBetter True f) (m # ms) acc = \<lparr> position = Some p, score = Fin (f p) \<rparr>
         \<and> score acc < Fin (f p)
         \<and> (\<forall>m' \<in> set (m # pre). f m' < f p) \<and> (\<forall>m' \<in> set post. f m' \<le> f p)"
      by simp
    then show ?thesis by blast
  qed
qed

lemma availableMoves_ascending: "sorted_wrt (<) (getAvailableMoves b)"
  unfolding getAvailableMoves_def
  by (simp add: sorted_wrt_map sorted_wrt_filter)

lemma ascending_split:
  assumes "sorted_wrt (<) (pre @ p # post)" "m \<in> set post"
  shows "(p::int) \<le> m"
  using assms by (auto simp: sorted_wrt_append)

lemma minimax_top_ply_first_best:
  assumes "length b \<le> 9" "checkWinner b = None" "EMPTY \<in> set b" "depth \<noteq> 0"
  shows "\<exists>p. minimax b depth isMaximizing NegInf PosInf
              = Inr \<lparr> position = Some p, score = Fin (candidateScore b depth isMaximizing p) \<rparr>
           \<and> p \<in> set (getAvailableMoves b)
           \<and> (\<forall>m \<in> set (getAvailableMoves b).
                 if isMaximizing
                 then candidateScore b depth isMaximizing m \<le> candidateScore b depth isMaximizing p
                 else candidateScore b depth isMaximizing p \<le> candidateScore b depth isMaximizing m)
           \<and> (\<forall>m \<in> set (getAvailableMoves b).
                 candidateScore b depth isMaximizing m = candidateScore b depth isMaximizing p
                 \<longrightarrow> p \<le> m)"
proof -
  let ?f = "candidateScore b depth isMaximizing"
  let ?ms = "getAvailableMoves b"
  let ?best = "\<lparr> position = (case ?ms of [] \<Rightarrow> None | m # _ \<Rightarrow> Some m),
                  score = (if isMaximizing then NegInf else PosInf) \<rparr>"
  from assms(3) have nd: "\<not> isDraw b" by (auto simp: isDraw_def list_all_iff)
  have ne: "?ms \<noteq> []" by (rule availableMoves_nonempty [OF assms(3)])
  from minimax_no_error(1) [OF assms(1)] obtain R where
    R: "minimax b depth isMaximizing NegInf PosInf = Inr R"
    by blast
  with assms(2) assms(4) nd have loop:
    "minimax_loop b depth isMaximizing ?ms ?best NegInf PosInf = Inr R"
    by (simp add: minimax.simps)
  have "topWindow isMaximizing ?best NegInf PosInf" by (simp add: topWindow_def)
  from top_loop_scan [OF loop this] have scan: "R = fold (keepBetter isMaximizing ?f) ?ms ?best" .
  have "\<exists>pre p post. ?ms = pre @ p # post
         \<and> R = \<lparr> position = Some p, score = Fin (?f p) \<rparr>
         \<and> (\<forall>m \<in> set pre. if isMaximizing then ?f m < ?f p else ?f p < ?f m)
         \<and> (\<forall>m \<in> set post. if isMaximizing then ?f m \<le> ?f p else ?f p \<le> ?f m)"
  proof (cases isMaximizing)
    case True
    from ne obtain m where "m \<in> set ?ms" by (cases ?ms) auto
    then have "\<not> (\<forall>m \<in> set ?ms. Fin (?f m) \<le> score ?best)"
      using True by auto
    with scan_max_first [of ?f ?ms ?best] scan True show ?thesis by auto
  next
    case False
    from ne obtain m where "m \<in> set ?ms" by (cases ?ms) auto
    then have "\<not> (\<forall>m \<in> set ?ms. score ?best \<le> Fin (?f m))"
      using False by auto
    with scan_min_first [of ?f ?ms ?best] scan False show ?thesis by auto
  qed
  then obtain pre p post where split: "?ms = pre @ p # post"
    and res: "R = \<lparr> position = Some p, score = Fin (?f p) \<rparr>"
    and pre: "\<forall>m \<in> set pre. if isMaximizing then ?f m < ?f p else ?f p < ?f m"
    and post: "\<forall>m \<in> set post. if isMaximizing then ?f m \<le> ?f p else ?f p \<le> ?f m"
    by blast
  have mem: "set ?ms = set pre \<union> {p} \<union> set post"
    unfolding split by auto
  have asc: "sorted_wrt (<) (pre @ p # post)"
    using availableMoves_ascending [of b] by (simp only: split)
  have best: "\<forall>m \<in> set ?ms. if isMaximizing then ?f m \<le> ?f p else ?f p \<le> ?f m"
    unfolding mem using pre post by (auto split: if_splits)
  have first: "\<forall>m \<in> set ?ms. ?f m = ?f p \<longrightarrow> p \<le> m"
  proof (intro ballI impI)
    fix m
    assume m: "m \<in> set ?ms" and tie: "?f m = ?f p"
    from pre tie have "m \<notin> set pre" by (auto split: if_splits)
    with m mem have "m = p \<or> m \<in> set post" by auto
    then show "p \<le> m"
      using ascending_split [OF asc] by auto
  qed
  from R res mem best first show ?thesis by auto
qed

text \<open>
  For the hard tier as the code runs it, with the maximizing flag false at the top ply:
  every candidate is scored with the user's mark on it, and the move returned is the first
  of the available moves with the lowest such score, whatever the random source draws.
\<close>

lemma getHardAIMove_first_lowest_user_score:
  assumes "length b = 9" "checkWinner b = None" "EMPTY \<in> set b"
  shows "\<exists>p. getHardAIMove b = Inr (Some p)
           \<and> p \<in> set (getAvailableMoves b)
           \<and> minimax b 9 False NegInf PosInf
               = Inr \<lparr> position = Some p, score = Fin (candidateScore b 9 False p) \<rparr>
           \<and> (\<forall>m \<in> set (getAvailableMoves b).
                 candidateScore b 9 False p \<le> candidateScore b 9 False m)
           \<and> (\<forall>m \<in> set (getAvailableMoves b).
                 candidateScore b 9 False m = candidateScore b 9 False p \<longrightarrow> p \<le> m)
           \<and> (\<forall>r1 r2. getAIMove b ''hard'' r1 r2 = Inr (Some p))"
proof -
  have len: "length b \<le> 9" using assms(1) by simp
  have ne: "getAvailableMoves b \<noteq> []" by (rule availableMoves_nonempty [OF assms(3)])
  from minimax_top_ply_first_best [OF len assms(2) assms(3), of 9 False]
  obtain p where p: "minimax b 9 False NegInf PosInf
              = Inr \<lparr> position = Some p, score = Fin (candidateScore b 9 False p) \<rparr>"
    "p \<in> set (getAvailableMoves b)"
    "\<forall>m \<in> set (getAvailableMoves b). candidateScore b 9 False p \<le> candidateScore b 9 False m"
    "\<forall>m \<in> set (getAvailableMoves b).
        candidateScore b 9 False m = candidateScore b 9 False p \<longrightarrow> p \<le> m"
    by auto
  from p(1) ne have hard: "getHardAIMove b = Inr (Some p)"
    by (simp add: getHardAIMove_def Let_def)
  then have "\<forall>r1 r2. getAIMove b ''hard'' r1 r2 = Inr (Some p)"
    by (simp add: getAIMove_def)
  with hard p show ?thesis by blast
qed

text \<open>
  C4 asks that, when several top-level candidate moves of the hard tier share the best
  score, the move with the lowest index among them is returned. The candidates are the
  AI's own moves and the best score is the highest. After the legal game 0, 1, 2, 4, 7
  (the user first) the four moves 3, 5, 6 and 8 of the AI all have the score 0, so the
  move asked for is 3, which is also what \<open>minimax\<close> returns when it is called with the
  maximizing flag true. \<open>getHardAIMove\<close> calls it with the flag false and returns 6, the
  first of the moves with the lowest score for the user's mark.
\<close>

theorem getHardAIMove_tie_not_lowest_index:
  "playFrom (replicate 9 EMPTY) USER [0, 1, 2, 4, 7]
     = Some [MARK_X, MARK_O, MARK_X, EMPTY, MARK_O, EMPTY, EMPTY, MARK_X, EMPTY]
   \<and> getAvailableMoves [MARK_X, MARK_O, MARK_X, EMPTY, MARK_O, EMPTY, EMPTY, MARK_X, EMPTY]
       = [3, 5, 6, 8]
   \<and> map (candidateScore [MARK_X, MARK_O, MARK_X, EMPTY, MARK_O, EMPTY, EMPTY, MARK_X, EMPTY] 9 True)
         [3, 5, 6, 8]
       = [0, 0, 0, 0]
   \<and> specHardMove [MARK_X, MARK_O, MARK_X, EMPTY, MARK_O, EMPTY, EMPTY, MARK_X, EMPTY] = Some 3
   \<and> minimax [MARK_X, MARK_O, MARK_X, EMPTY, MARK_O, EMPTY, EMPTY, MARK_X, EMPTY] 9 True NegInf PosInf
       = Inr \<lparr> position = Some 3, score = Fin 0 \<rparr>
   \<and> getHardAIMove [MARK_X, MARK_O, MARK_X, EMPTY, MARK_O, EMPTY, EMPTY, MARK_X, EMPTY]
       = Inr (Some 6)
   \<and> minimax [MARK_X, MARK_O, MARK_X, EMPTY, MARK_O, EMPTY, EMPTY, MARK_X, EMPTY] 9 False NegInf PosInf
       = Inr \<lparr> position = Some 6, score = Fin (- 7) \<rparr>
   \<and> map (candidateScore [MARK_X, MARK_O, MARK_X, EMPTY, MARK_O, EMPTY, EMPTY, MARK_X, EMPTY] 9 False)
         [3, 5, 6, 8]
       = [0, 0, - 7, - 7]"
  by code_simp

end
